theory Spec2Isabelle
  imports Main "HOL-Library.AList" "HOL-Library.Signed_Division"
begin

section \<open>The snmp_lookup store (plugins/processors/snmp_lookup/store.go)\<close>

text \<open>
  The store is shared by the goroutines that call \<open>lookup\<close>, by the pool's workers and by
  the timer callback. The model is an interleaving one: the state is a record of the
  struct's fields, every function of the file is a state transformer, and an event is one
  atomic step of one goroutine. The granularity is: a call of \<open>lookup\<close>, of the timer
  callback, of \<open>purge\<close>, the locked section of \<open>destroy\<close>, and each single statement of the
  closure that \<open>enqueue\<close> submits to the pool (lines 87 to 91), so that lookups, timer
  callbacks and other jobs interleave between the statements of a running job. A call
  of \<open>enqueue\<close> is one step: its test and setting of the in-flight mark is one atomic
  operation in the code (\<open>LoadOrStore\<close>), and what the functions promise is read at their
  return.
\<close>

subsection \<open>Time\<close>

text \<open>
  An instant (\<open>time.Time\<close>) is a number of nanoseconds, a \<open>time.Duration\<close> is an int64
  count of nanoseconds. \<open>Time.Sub\<close> saturates at the largest and smallest duration;
  \<open>time.Since\<close> and \<open>time.Until\<close> are \<open>Sub\<close> against the current instant.
\<close>

type_synonym time = int
type_synonym duration = int

definition maxDuration :: duration where
  "maxDuration = 2 ^ 63 - 1"

definition minDuration :: duration where
  "minDuration = - (2 ^ 63)"

definition time_Sub :: "time \<Rightarrow> time \<Rightarrow> duration" where
  "time_Sub t u = max minDuration (min maxDuration (t - u))"

definition time_Since :: "time \<Rightarrow> time \<Rightarrow> duration" where
  "time_Since now t = time_Sub now t"

definition time_Until :: "time \<Rightarrow> time \<Rightarrow> duration" where
  "time_Until now t = time_Sub t now"

definition time_Add :: "time \<Rightarrow> duration \<Rightarrow> time" where
  "time_Add t d = t + d"

text \<open>The zero \<open>time.Time\<close> (January 1 of year 1, UTC) in nanoseconds from the Unix epoch.\<close>

definition zeroTime :: time where
  "zeroTime = - 62135596800 * 1000000000"

subsection \<open>Entries\<close>

text \<open>
  Modelled from the spec: the type \<open>tagMap\<close> is declared in another file of the package.
  The store reads two fields of it, \<open>created\<close> and \<open>rows\<close> (a map from an index to the
  tags resolved for it). A \<open>*tagMap\<close> may be nil: an entry is a \<open>tagMap option\<close>.
\<close>

record tagMap =
  created :: time
  rows :: "string \<rightharpoonup> (string \<rightharpoonup> string)"

type_synonym entry = "tagMap option"

subsection \<open>The bounded cache\<close>

text \<open>
  Modelled from the spec: the cache is the library type \<open>expirable.LRU\<close>, which is not part
  of the repository. Its contract (section 4.1 of the specification): a fixed capacity
  and a fixed time to live; \<open>Get\<close> treats an entry older than the time to live as absent
  and makes a found entry the most recently used one; \<open>Add\<close> replaces the slot of the key,
  renews its expiry, makes it the most recently used one and, on capacity overflow,
  evicts the least recently used entry; \<open>Purge\<close> clears all entries. The items are kept
  most recently used first, each with the instant at which it expires. As the library's
  constructor does, a negative size is taken as 0 (no capacity bound) and a time to live
  that is not positive as a period of ten years.
\<close>

record lru =
  lru_size :: int
  lru_ttl :: duration
  lru_items :: "(string \<times> (entry \<times> time)) list"

definition noEvictionTTL :: duration where
  "noEvictionTTL = 10 * 365 * 24 * 3600 * 1000000000"

definition NewLRU :: "int \<Rightarrow> duration \<Rightarrow> lru" where
  "NewLRU size' ttl =
     \<lparr> lru_size = (if size' < 0 then 0 else size'),
       lru_ttl = (if ttl \<le> 0 then noEvictionTTL else ttl),
       lru_items = [] \<rparr>"

definition lru_Get :: "time \<Rightarrow> string \<Rightarrow> lru \<Rightarrow> entry option \<times> lru" where
  "lru_Get now k c =
     (case map_of (lru_items c) k of
        None \<Rightarrow> (None, c)
      | Some (v, expiresAt) \<Rightarrow>
          if expiresAt < now then (None, c)
          else (Some v, c\<lparr>lru_items := (k, (v, expiresAt)) # AList.delete k (lru_items c)\<rparr>))"

definition lru_Add :: "time \<Rightarrow> string \<Rightarrow> entry \<Rightarrow> lru \<Rightarrow> lru" where
  "lru_Add now k v c =
     (let items = (k, (v, time_Add now (lru_ttl c))) # AList.delete k (lru_items c)
      in c\<lparr>lru_items :=
             (if 0 < lru_size c \<and> lru_size c < int (length items)
              then butlast items else items)\<rparr>)"

definition lru_Purge :: "lru \<Rightarrow> lru" where
  "lru_Purge c = c\<lparr>lru_items := []\<rparr>"

subsection \<open>The worker pool, the jobs and the timer\<close>

text \<open>
  The closure submitted by \<open>enqueue\<close> has five statements. A job is the closure's
  captured \<open>agent\<close> and the statement it executes next; the local variable \<open>entry\<close> lives
  from the first statement on.
\<close>

datatype pc =
    AtUpdate
  | AtCacheAdd entry
  | AtRemoveBacklog entry
  | AtNotify entry
  | AtInflightDelete

record job =
  j_agent :: string
  j_pc :: pc

text \<open>
  Modelled from the spec: the pool is the library type \<open>pond.WorkerPool\<close>. Section 4.2:
  \<open>Submit\<close> queues a job and returns; \<open>StopAndWait\<close> stops accepting jobs and blocks until
  the jobs finish. The pool holds the jobs that were submitted and have not finished;
  any of them may execute its next statement at any time, which covers every number of
  workers.
\<close>

record pool =
  p_maxWorkers :: int
  p_minWorkers :: int
  p_stopped :: bool
  p_jobs :: "job list"

definition pond_New :: "int \<Rightarrow> int \<Rightarrow> pool" where
  "pond_New maxWorkers minWorkers =
     \<lparr> p_maxWorkers = maxWorkers, p_minWorkers = minWorkers, p_stopped = False, p_jobs = [] \<rparr>"

definition pool_Submit :: "job \<Rightarrow> pool \<Rightarrow> pool" where
  "pool_Submit j p = p\<lparr>p_jobs := p_jobs p @ [j]\<rparr>"

text \<open>
  A \<open>*time.Timer\<close> made by \<open>time.AfterFunc (time.Until earliest) f\<close>: the instant at which
  it fires, the agent that its callback enqueues, and whether it is still pending
  (neither stopped nor fired).
\<close>

record timer =
  t_due :: time
  t_agent :: string
  t_active :: bool

definition timer_Stop :: "timer \<Rightarrow> timer" where
  "timer_Stop t = t\<lparr>t_active := False\<rparr>"

definition time_AfterFunc :: "time \<Rightarrow> duration \<Rightarrow> string \<Rightarrow> timer" where
  "time_AfterFunc now d agent = \<lparr> t_due = now + d, t_agent = agent, t_active = True \<rparr>"

subsection \<open>The store\<close>

text \<open>
  The calls that leave the store, in the order in which they happen. The two call sites
  of \<open>s.notify\<close> are told apart: line 122 in \<open>lookup\<close> and line 90 in a job.
\<close>

datatype site = InLookup | InJob

datatype action =
    Submitted string
  | Resolved string entry
  | Installed string entry
  | Unqueued string
  | Notified site string entry
  | Released string

text \<open>
  The fields of the struct. \<open>inflight\<close> is a \<open>sync.Map\<close> used as a set. \<open>deferredUpdates\<close> is
  a Go map; it is kept as an association list with distinct keys whose order is the order
  in which \<open>range\<close> visits it (Go leaves that order open: see the event \<open>Shuffle\<close>). The
  fields \<open>notify\<close> and \<open>update\<close> are supplied by the plugin: a call of \<open>notify\<close> is recorded in
  \<open>trace\<close>, the value that \<open>update\<close> returns is an input of the step that calls it. \<open>clock\<close>
  is the current instant.
\<close>

record store =
  cache :: lru
  pool :: pool
  minUpdateInterval :: duration
  inflight :: "string set"
  deferredUpdates :: "(string \<times> time) list"
  deferredUpdatesTimer :: "timer option"
  stopped :: bool
  clock :: time
  trace :: "action list"

text \<open>
  \<open>newStore\<close> returns a pointer to a fresh store: \<open>Some\<close> of it (\<open>None\<close> would be nil).
  Go's integer division truncates towards zero (\<open>sdiv\<close>). The store starts at instant
  \<open>now\<close>.
\<close>

definition newStore :: "time \<Rightarrow> int \<Rightarrow> duration \<Rightarrow> int \<Rightarrow> duration \<Rightarrow> store option" where
  "newStore now size' ttl workers minUpdateInterval' =
     Some \<lparr> cache = NewLRU size' ttl,
            pool = pond_New workers (workers sdiv 2 + 1),
            minUpdateInterval = minUpdateInterval',
            inflight = {},
            deferredUpdates = [],
            deferredUpdatesTimer = None,
            stopped = False,
            clock = now,
            trace = [] \<rparr>"

text \<open>The body of the loop of \<open>refreshTimer\<close> (lines 74 to 77) on the pair agent, earliest.\<close>

definition pick :: "string \<times> time \<Rightarrow> string \<times> time \<Rightarrow> string \<times> time" where
  "pick acc kt = (if fst acc = '''' \<or> snd kt < snd acc then kt else acc)"

definition refreshTimer :: "store \<Rightarrow> store" where
  "refreshTimer s =
     (let s1 = s\<lparr>deferredUpdatesTimer := map_option timer_Stop (deferredUpdatesTimer s)\<rparr>
      in if deferredUpdates s1 = [] \<or> stopped s1 then s1
         else
           let (agent, earliest) = foldl pick ('''', zeroTime) (deferredUpdates s1)
           in s1\<lparr>deferredUpdatesTimer :=
                   Some (time_AfterFunc (clock s1) (time_Until (clock s1) earliest) agent)\<rparr>)"

definition addBacklog :: "string \<Rightarrow> time \<Rightarrow> store \<Rightarrow> store" where
  "addBacklog agent earliest s =
     (if stopped s then s
      else
        case map_of (deferredUpdates s) agent of
          None \<Rightarrow>
            refreshTimer (s\<lparr>deferredUpdates := AList.update agent earliest (deferredUpdates s)\<rparr>)
        | Some t \<Rightarrow>
            if earliest < t
            then refreshTimer
                   (s\<lparr>deferredUpdates := AList.update agent earliest (deferredUpdates s)\<rparr>)
            else s)"

definition removeBacklog :: "string \<Rightarrow> store \<Rightarrow> store" where
  "removeBacklog agent s =
     (let s1 = s\<lparr>deferredUpdates := AList.delete agent (deferredUpdates s)\<rparr>
      in if \<not> stopped s1 then refreshTimer s1 else s1)"

definition enqueue :: "string \<Rightarrow> store \<Rightarrow> store" where
  "enqueue agent s =
     (if agent \<in> inflight s then s
      else
        let s1 = s\<lparr>inflight := insert agent (inflight s)\<rparr>
        in if p_stopped (pool s1) then s1
           else s1\<lparr>pool := pool_Submit \<lparr>j_agent = agent, j_pc = AtUpdate\<rparr> (pool s1),
                   trace := trace s1 @ [Submitted agent]\<rparr>)"

definition notify :: "site \<Rightarrow> string \<Rightarrow> entry \<Rightarrow> store \<Rightarrow> store" where
  "notify at agent e s = s\<lparr>trace := trace s @ [Notified at agent e]\<rparr>"

text \<open>
  Reading \<open>entry.rows\<close> through a nil \<open>*tagMap\<close> is a run-time panic; the other outcome of
  a step, \<open>NotSchedulable\<close>, says that the event cannot happen in the state (see \<open>step\<close>).
\<close>

datatype error = NilPointerDereference | NotSchedulable

definition lookup :: "string \<Rightarrow> string \<Rightarrow> store \<Rightarrow> error + store" where
  "lookup agent index s =
     (let (r, c) = lru_Get (clock s) agent (cache s);
          s1 = s\<lparr>cache := c\<rparr>
      in case r of
           None \<Rightarrow> Inr (enqueue agent s1)
         | Some None \<Rightarrow> Inl NilPointerDereference
         | Some (Some e) \<Rightarrow>
             (case rows e index of
                None \<Rightarrow>
                  if 0 < minUpdateInterval s1 then
                    if minUpdateInterval s1 < time_Since (clock s1) (created e)
                    then Inr (enqueue agent s1)
                    else Inr (notify InLookup agent (Some e)
                               (addBacklog agent
                                  (time_Add (created e) (minUpdateInterval s1)) s1))
                  else Inr (notify InLookup agent (Some e) s1)
              | Some _ \<Rightarrow> Inr (notify InLookup agent (Some e) s1)))"

text \<open>
  One statement of the closure of \<open>enqueue\<close>, for the job at position \<open>n\<close> of the pool;
  \<open>r\<close> is what \<open>s.update agent\<close> returns when the statement is that call. After its last
  statement the job leaves the pool.
\<close>

definition set_pc :: "nat \<Rightarrow> pc \<Rightarrow> store \<Rightarrow> store" where
  "set_pc n p s =
     s\<lparr>pool := (pool s)\<lparr>p_jobs := (p_jobs (pool s))[n := (p_jobs (pool s) ! n)\<lparr>j_pc := p\<rparr>]\<rparr>\<rparr>"

definition finish :: "nat \<Rightarrow> store \<Rightarrow> store" where
  "finish n s =
     s\<lparr>pool := (pool s)\<lparr>p_jobs := take n (p_jobs (pool s)) @ drop (Suc n) (p_jobs (pool s))\<rparr>\<rparr>"

definition job_step :: "nat \<Rightarrow> entry \<Rightarrow> store \<Rightarrow> store" where
  "job_step n r s =
     (let agent = j_agent (p_jobs (pool s) ! n)
      in case j_pc (p_jobs (pool s) ! n) of
           AtUpdate \<Rightarrow>
             set_pc n (AtCacheAdd r) (s\<lparr>trace := trace s @ [Resolved agent r]\<rparr>)
         | AtCacheAdd e \<Rightarrow>
             set_pc n (AtRemoveBacklog e)
               (s\<lparr>cache := lru_Add (clock s) agent e (cache s),
                  trace := trace s @ [Installed agent e]\<rparr>)
         | AtRemoveBacklog e \<Rightarrow>
             set_pc n (AtNotify e)
               (removeBacklog agent (s\<lparr>trace := trace s @ [Unqueued agent]\<rparr>))
         | AtNotify e \<Rightarrow>
             set_pc n AtInflightDelete (notify InJob agent e s)
         | AtInflightDelete \<Rightarrow>
             finish n (s\<lparr>inflight := inflight s - {agent},
                         trace := trace s @ [Released agent]\<rparr>))"

text \<open>
  \<open>destroy\<close> in its three phases: the locked section (lines 127 to 136), then
  \<open>StopAndWait\<close>, which first makes the pool refuse new jobs and then blocks until the jobs
  of the pool have finished.
\<close>

definition destroy_locked :: "store \<Rightarrow> store" where
  "destroy_locked s =
     s\<lparr>stopped := True, deferredUpdates := [], deferredUpdatesTimer := None\<rparr>"

definition pool_stop :: "store \<Rightarrow> store" where
  "pool_stop s = s\<lparr>pool := (pool s)\<lparr>p_stopped := True\<rparr>\<rparr>"

definition purge :: "store \<Rightarrow> store" where
  "purge s = s\<lparr>cache := lru_Purge (cache s)\<rparr>"

subsection \<open>Events and runs\<close>

text \<open>
  \<open>Lookup\<close>: a goroutine calls \<open>lookup\<close>. \<open>JobStep n r\<close>: a worker executes the next statement of
  job \<open>n\<close>. \<open>TimerFire\<close>: the pending timer is due and runs its callback. \<open>Tick d\<close>: time
  passes. \<open>DestroyLock\<close>, \<open>DestroyStop\<close>, \<open>DestroyWait\<close>: the phases of \<open>destroy\<close>; the last one
  is the return of \<open>StopAndWait\<close> and can happen only when the pool holds no job.
  \<open>Purge\<close>: a call of \<open>purge\<close>. \<open>Shuffle al\<close>: Go visits a map in an unspecified order, so the
  list that stands for \<open>deferredUpdates\<close> may be put in any other order at any time.
\<close>

datatype event =
    Lookup string string
  | JobStep nat entry
  | TimerFire
  | Tick duration
  | DestroyLock
  | DestroyStop
  | DestroyWait
  | Purge
  | Shuffle "(string \<times> time) list"

fun step :: "event \<Rightarrow> store \<Rightarrow> error + store" where
  "step (Lookup agent index) s = lookup agent index s"
| "step (JobStep n r) s =
     (if n < length (p_jobs (pool s)) then Inr (job_step n r s) else Inl NotSchedulable)"
| "step TimerFire s =
     (case deferredUpdatesTimer s of
        None \<Rightarrow> Inl NotSchedulable
      | Some t \<Rightarrow>
          if t_active t \<and> t_due t \<le> clock s
          then Inr (enqueue (t_agent t) (s\<lparr>deferredUpdatesTimer := Some (timer_Stop t)\<rparr>))
          else Inl NotSchedulable)"
| "step (Tick d) s = (if 0 \<le> d then Inr (s\<lparr>clock := clock s + d\<rparr>) else Inl NotSchedulable)"
| "step DestroyLock s = Inr (destroy_locked s)"
| "step DestroyStop s = (if stopped s then Inr (pool_stop s) else Inl NotSchedulable)"
| "step DestroyWait s =
     (if p_stopped (pool s) \<and> p_jobs (pool s) = [] then Inr s else Inl NotSchedulable)"
| "step Purge s = Inr (purge s)"
| "step (Shuffle al) s =
     (if distinct (map fst al) \<and> set al = set (deferredUpdates s)
      then Inr (s\<lparr>deferredUpdates := al\<rparr>) else Inl NotSchedulable)"

fun run :: "event list \<Rightarrow> store \<Rightarrow> error + store" where
  "run [] s = Inr s"
| "run (e # es) s = (case step e s of Inl x \<Rightarrow> Inl x | Inr s' \<Rightarrow> run es s')"

text \<open>
  A call of \<open>destroy\<close> is its three phases in this order; the events of other goroutines
  come between them.
\<close>

definition destroy :: "event list" where
  "destroy = [DestroyLock, DestroyStop, DestroyWait]"

subsection \<open>Jobs and marks\<close>

text \<open>
  The agents of the jobs in the pool, in the pool's order, and the relation between the
  pool and the in-flight set that the runs of a store keep: no two jobs of the pool have
  the same agent, the agent of every job is marked in flight, and, as long as the pool
  is not stopped, every agent marked in flight has a job in the pool.
\<close>

definition agents :: "store \<Rightarrow> string list" where
  "agents s = map j_agent (p_jobs (pool s))"

definition jobs_inv :: "store \<Rightarrow> bool" where
  "jobs_inv s \<longleftrightarrow>
     distinct (agents s) \<and> set (agents s) \<subseteq> inflight s \<and>
     (p_stopped (pool s) \<or> inflight s \<subseteq> set (agents s))"

text \<open>The statement at which the job of an agent stands, if the pool has a job for it.\<close>

definition job_of :: "string \<Rightarrow> store \<Rightarrow> pc option" where
  "job_of k s = map_of (map (\<lambda>j. (j_agent j, j_pc j)) (p_jobs (pool s))) k"

text \<open>The number of statements that a job has yet to execute.\<close>

fun remaining :: "pc \<Rightarrow> nat" where
  "remaining AtUpdate = 5"
| "remaining (AtCacheAdd e) = 4"
| "remaining (AtRemoveBacklog e) = 3"
| "remaining (AtNotify e) = 2"
| "remaining AtInflightDelete = 1"

text \<open>
  The events that let every job of a pool finish, first job first (the resolver, where
  it is still to be called, returns nil).
\<close>

definition drain :: "job list \<Rightarrow> event list" where
  "drain js = concat (map (\<lambda>j. replicate (remaining (j_pc j)) (JobStep 0 None)) js)"

subsection \<open>Reading a trace\<close>

fun is_Submitted :: "action \<Rightarrow> bool" where
  "is_Submitted (Submitted a) = True"
| "is_Submitted _ = False"



text \<open>
  The order of the calls of one agent's jobs. \<open>advance k p a\<close> reads the action \<open>a\<close> when the
  job of agent \<open>k\<close> stands at \<open>p\<close> (\<open>None\<close>: there is no job): an action of another agent, or the
  notifier called by a lookup, changes nothing; an action of a job of \<open>k\<close> must be the one
  that the job's next statement makes, with the entry that the resolver returned, and
  moves the job on; anything else is out of order (\<open>None\<close>). \<open>track k\<close> reads a whole trace
  from the state without a job.
\<close>

fun advance :: "string \<Rightarrow> pc option \<Rightarrow> action \<Rightarrow> pc option option" where
  "advance k p (Submitted a) =
     (if a = k then (if p = None then Some (Some AtUpdate) else None) else Some p)"
| "advance k p (Resolved a e) =
     (if a = k then (if p = Some AtUpdate then Some (Some (AtCacheAdd e)) else None)
      else Some p)"
| "advance k p (Installed a e) =
     (if a = k then (if p = Some (AtCacheAdd e) then Some (Some (AtRemoveBacklog e)) else None)
      else Some p)"
| "advance k p (Unqueued a) =
     (if a = k then (case p of Some (AtRemoveBacklog e) \<Rightarrow> Some (Some (AtNotify e)) | _ \<Rightarrow> None)
      else Some p)"
| "advance k p (Notified w a e) =
     (if a = k \<and> w = InJob
      then (if p = Some (AtNotify e) then Some (Some AtInflightDelete) else None)
      else Some p)"
| "advance k p (Released a) =
     (if a = k then (if p = Some AtInflightDelete then Some None else None) else Some p)"

definition track :: "string \<Rightarrow> action list \<Rightarrow> pc option option" where
  "track k tr =
     foldl (\<lambda>st a. case st of None \<Rightarrow> None | Some p \<Rightarrow> advance k p a) (Some None) tr"


subsection \<open>Example runs\<close>

text \<open>
  A store with capacity 10, a time to live of 3600, two workers and the given minimum
  update interval, created at instant 0. \<open>resolve agent r\<close> is a lookup of an agent that is not
  cached, followed by the five statements of the job it submits, whose resolver returns
  \<open>r\<close>. \<open>sw1_at interval d\<close> is the store in which the agent \<open>sw1\<close> has been resolved at instant 0
  to an entry with the single row \<open>eth0\<close>, and \<open>d\<close> nanoseconds have passed since.
\<close>

definition sw1_entry :: tagMap where
  "sw1_entry = \<lparr> created = 0, rows = [''eth0'' \<mapsto> [''ifName'' \<mapsto> ''eth0'']] \<rparr>"

definition resolve :: "string \<Rightarrow> entry \<Rightarrow> event list" where
  "resolve agent r =
     [Lookup agent ''eth0'', JobStep 0 r, JobStep 0 None, JobStep 0 None, JobStep 0 None,
      JobStep 0 None]"

definition sw1_at :: "duration \<Rightarrow> duration \<Rightarrow> store" where
  "sw1_at interval d =
     projr (run (resolve ''sw1'' (Some sw1_entry) @ [Tick d])
              (the (newStore 0 10 3600 2 interval)))"

text \<open>The store in which \<open>sw1\<close> has been looked up and its job waits in the pool.\<close>

definition sw1_queued :: "duration \<Rightarrow> store" where
  "sw1_queued interval =
     projr (run [Lookup ''sw1'' ''eth0''] (the (newStore 0 10 3600 2 interval)))"

text \<open>The store after a complete \<open>destroy\<close>.\<close>

definition destroyed :: "duration \<Rightarrow> store" where
  "destroyed interval =
     projr (run destroy (the (newStore 0 10 3600 2 interval)))"



text \<open>
  The store in which \<open>destroy\<close> waits for the pool while the job of \<open>sw3\<close> is running.
\<close>

definition sw3_stopping :: store where
  "sw3_stopping =
     projr (run [Lookup ''sw3'' ''eth0'', JobStep 0 (Some sw1_entry), DestroyLock, DestroyStop]
              (the (newStore 0 10 3600 2 30)))"

text \<open>
  A store with minimum update interval 30 in which the agent with the empty name has
  been resolved at instant 0 and \<open>sw1\<close> at instant 5, and then, at instant 6, both were
  looked up for an index that their entries lack.
\<close>

definition empty_agent_events :: "event list" where
  "empty_agent_events =
     resolve '''' (Some sw1_entry) @ resolve ''sw1'' (Some (sw1_entry\<lparr>created := 5\<rparr>)) @
     [Tick 6, Lookup '''' ''eth1'', Lookup ''sw1'' ''eth1'']"

definition empty_agent_backlog :: store where
  "empty_agent_backlog = projr (run empty_agent_events (the (newStore 0 10 3600 2 30)))"



section \<open>Basic facts\<close>

lemmas store_defs =
  newStore_def NewLRU_def pond_New_def pool_Submit_def lru_Get_def lru_Add_def lru_Purge_def
  time_Add_def time_Since_def time_Until_def time_Sub_def maxDuration_def minDuration_def
  timer_Stop_def time_AfterFunc_def pick_def refreshTimer_def addBacklog_def removeBacklog_def
  enqueue_def notify_def lookup_def set_pc_def finish_def job_step_def destroy_locked_def
  pool_stop_def purge_def zeroTime_def noEvictionTTL_def

subsection \<open>What each function leaves unchanged\<close>

lemma refreshTimer_frame [simp]:
  "cache (refreshTimer s) = cache s"
  "pool (refreshTimer s) = pool s"
  "minUpdateInterval (refreshTimer s) = minUpdateInterval s"
  "inflight (refreshTimer s) = inflight s"
  "deferredUpdates (refreshTimer s) = deferredUpdates s"
  "stopped (refreshTimer s) = stopped s"
  "clock (refreshTimer s) = clock s"
  "trace (refreshTimer s) = trace s"
  by (simp_all add: refreshTimer_def Let_def split: prod.splits)

lemma addBacklog_frame [simp]:
  "cache (addBacklog a t s) = cache s"
  "pool (addBacklog a t s) = pool s"
  "minUpdateInterval (addBacklog a t s) = minUpdateInterval s"
  "inflight (addBacklog a t s) = inflight s"
  "stopped (addBacklog a t s) = stopped s"
  "clock (addBacklog a t s) = clock s"
  "trace (addBacklog a t s) = trace s"
  by (simp_all add: addBacklog_def split: option.splits)

lemma removeBacklog_frame [simp]:
  "cache (removeBacklog a s) = cache s"
  "pool (removeBacklog a s) = pool s"
  "minUpdateInterval (removeBacklog a s) = minUpdateInterval s"
  "inflight (removeBacklog a s) = inflight s"
  "deferredUpdates (removeBacklog a s) = AList.delete a (deferredUpdates s)"
  "stopped (removeBacklog a s) = stopped s"
  "clock (removeBacklog a s) = clock s"
  "trace (removeBacklog a s) = trace s"
  by (simp_all add: removeBacklog_def Let_def)

lemma enqueue_frame [simp]:
  "cache (enqueue a s) = cache s"
  "minUpdateInterval (enqueue a s) = minUpdateInterval s"
  "inflight (enqueue a s) = insert a (inflight s)"
  "deferredUpdates (enqueue a s) = deferredUpdates s"
  "deferredUpdatesTimer (enqueue a s) = deferredUpdatesTimer s"
  "stopped (enqueue a s) = stopped s"
  "clock (enqueue a s) = clock s"
  "p_stopped (pool (enqueue a s)) = p_stopped (pool s)"
  by (auto simp add: enqueue_def Let_def pool_Submit_def)

lemma enqueue_jobs:
  "p_jobs (pool (enqueue a s)) =
     (if a \<in> inflight s \<or> p_stopped (pool s) then p_jobs (pool s)
      else p_jobs (pool s) @ [\<lparr>j_agent = a, j_pc = AtUpdate\<rparr>])"
  by (simp add: enqueue_def Let_def pool_Submit_def)

lemma enqueue_trace:
  "trace (enqueue a s) =
     trace s @ (if a \<in> inflight s \<or> p_stopped (pool s) then [] else [Submitted a])"
  by (simp add: enqueue_def Let_def)

lemma notify_frame [simp]:
  "cache (notify w a e s) = cache s"
  "pool (notify w a e s) = pool s"
  "minUpdateInterval (notify w a e s) = minUpdateInterval s"
  "inflight (notify w a e s) = inflight s"
  "deferredUpdates (notify w a e s) = deferredUpdates s"
  "deferredUpdatesTimer (notify w a e s) = deferredUpdatesTimer s"
  "stopped (notify w a e s) = stopped s"
  "clock (notify w a e s) = clock s"
  "trace (notify w a e s) = trace s @ [Notified w a e]"
  by (simp_all add: notify_def)

text \<open>The three ways in which a call of lookup ends without a panic.\<close>

lemma lookup_cases:
  assumes "lookup agent index s = Inr s'"
  obtains
    (enq) c where "c = snd (lru_Get (clock s) agent (cache s))"
      "s' = enqueue agent (s\<lparr>cache := c\<rparr>)"
  | (later) c e where "c = snd (lru_Get (clock s) agent (cache s))"
      "0 < minUpdateInterval s"
      "s' = notify InLookup agent (Some e)
              (addBacklog agent (time_Add (created e) (minUpdateInterval s)) (s\<lparr>cache := c\<rparr>))"
  | (hit) c e where "c = snd (lru_Get (clock s) agent (cache s))"
      "s' = notify InLookup agent (Some e) (s\<lparr>cache := c\<rparr>)"
  using assms
  by (auto simp add: lookup_def Let_def split: prod.splits option.splits if_splits)


lemma set_pc_frame [simp]:
  "cache (set_pc n p s) = cache s"
  "minUpdateInterval (set_pc n p s) = minUpdateInterval s"
  "inflight (set_pc n p s) = inflight s"
  "deferredUpdates (set_pc n p s) = deferredUpdates s"
  "deferredUpdatesTimer (set_pc n p s) = deferredUpdatesTimer s"
  "stopped (set_pc n p s) = stopped s"
  "clock (set_pc n p s) = clock s"
  "trace (set_pc n p s) = trace s"
  "p_stopped (pool (set_pc n p s)) = p_stopped (pool s)"
  "p_jobs (pool (set_pc n p s)) = (p_jobs (pool s))[n := (p_jobs (pool s) ! n)\<lparr>j_pc := p\<rparr>]"
  by (simp_all add: set_pc_def)

lemma finish_frame [simp]:
  "cache (finish n s) = cache s"
  "minUpdateInterval (finish n s) = minUpdateInterval s"
  "inflight (finish n s) = inflight s"
  "deferredUpdates (finish n s) = deferredUpdates s"
  "deferredUpdatesTimer (finish n s) = deferredUpdatesTimer s"
  "stopped (finish n s) = stopped s"
  "clock (finish n s) = clock s"
  "trace (finish n s) = trace s"
  "p_stopped (pool (finish n s)) = p_stopped (pool s)"
  "p_jobs (pool (finish n s)) = take n (p_jobs (pool s)) @ drop (Suc n) (p_jobs (pool s))"
  by (simp_all add: finish_def)

lemma job_step_frame [simp]:
  "minUpdateInterval (job_step n r s) = minUpdateInterval s"
  "stopped (job_step n r s) = stopped s"
  "clock (job_step n r s) = clock s"
  "p_stopped (pool (job_step n r s)) = p_stopped (pool s)"
  by (simp_all add: job_step_def Let_def split: pc.splits)

lemma job_step_deferredUpdates:
  "deferredUpdates (job_step n r s) =
     (case j_pc (p_jobs (pool s) ! n) of
        AtRemoveBacklog e \<Rightarrow> AList.delete (j_agent (p_jobs (pool s) ! n)) (deferredUpdates s)
      | _ \<Rightarrow> deferredUpdates s)"
  by (simp add: job_step_def Let_def split: pc.splits)

lemma step_minUpdateInterval:
  "step ev s = Inr s' \<Longrightarrow> minUpdateInterval s' = minUpdateInterval s"
proof (cases ev)
  case (Lookup agent index)
  assume "step ev s = Inr s'"
  with Lookup have "lookup agent index s = Inr s'" by simp
  then show ?thesis by (cases rule: lookup_cases) simp_all
qed (auto simp add: destroy_locked_def pool_stop_def purge_def
       split: if_splits option.splits)

lemma run_minUpdateInterval:
  "run evs s = Inr s' \<Longrightarrow> minUpdateInterval s' = minUpdateInterval s"
proof (induction evs arbitrary: s)
  case Nil
  then show ?case by simp
next
  case (Cons ev evs)
  then show ?case
    by (auto split: sum.splits dest: step_minUpdateInterval)
qed

lemma step_no_backlog:
  assumes "step ev s = Inr s'" and "minUpdateInterval s \<le> 0" and "deferredUpdates s = []"
  shows "deferredUpdates s' = []"
proof (cases ev)
  case (Lookup agent index)
  with assms have "lookup agent index s = Inr s'" by simp
  then show ?thesis using assms by (cases rule: lookup_cases) simp_all
next
  case (JobStep n r)
  with assms show ?thesis
    by (auto simp add: job_step_deferredUpdates split: if_splits pc.splits)
qed (use assms in \<open>auto simp add: destroy_locked_def pool_stop_def purge_def
       split: if_splits option.splits\<close>)

lemma run_no_backlog:
  "run evs s = Inr s' \<Longrightarrow> minUpdateInterval s \<le> 0 \<Longrightarrow> deferredUpdates s = [] \<Longrightarrow>
     deferredUpdates s' = []"
proof (induction evs arbitrary: s)
  case Nil
  then show ?case by simp
next
  case (Cons ev evs)
  from Cons.prems obtain s1 where s1: "step ev s = Inr s1" and r: "run evs s1 = Inr s'"
    by (auto split: sum.splits)
  have "minUpdateInterval s1 \<le> 0"
    using step_minUpdateInterval [OF s1] Cons.prems by simp
  moreover have "deferredUpdates s1 = []"
    using step_no_backlog [OF s1] Cons.prems by simp
  ultimately show ?case using Cons.IH [OF r] by simp
qed

lemma lookup_partial_hit_disabled:
  assumes "minUpdateInterval s \<le> 0"
    and "lru_Get (clock s) agent (cache s) = (Some (Some e), c)" and "rows e index = None"
  shows "lookup agent index s =
           Inr (s\<lparr>cache := c, trace := trace s @ [Notified InLookup agent (Some e)]\<rparr>)"
  using assms by (simp add: lookup_def notify_def)


subsection \<open>The example runs, evaluated\<close>

lemma sw1_at_eq:
  "0 \<le> d \<Longrightarrow> sw1_at interval d =
     \<lparr> cache = \<lparr> lru_size = 10, lru_ttl = 3600,
                 lru_items = [(''sw1'', (Some sw1_entry, 3600))] \<rparr>,
       pool = \<lparr> p_maxWorkers = 2, p_minWorkers = 2, p_stopped = False, p_jobs = [] \<rparr>,
       minUpdateInterval = interval,
       inflight = {},
       deferredUpdates = [],
       deferredUpdatesTimer = None,
       stopped = False,
       clock = d,
       trace = [Submitted ''sw1'', Resolved ''sw1'' (Some sw1_entry),
                Installed ''sw1'' (Some sw1_entry), Unqueued ''sw1'',
                Notified InJob ''sw1'' (Some sw1_entry), Released ''sw1''] \<rparr>"
  by (simp add: sw1_at_def resolve_def store_defs Let_def)

lemma sw1_at_run:
  "0 \<le> d \<Longrightarrow> run (resolve ''sw1'' (Some sw1_entry) @ [Tick d])
              (the (newStore 0 10 3600 2 interval)) = Inr (sw1_at interval d)"
  by (simp add: sw1_at_def resolve_def store_defs Let_def)


lemma sw1_queued_eq:
  "sw1_queued interval =
     \<lparr> cache = \<lparr> lru_size = 10, lru_ttl = 3600, lru_items = [] \<rparr>,
       pool = \<lparr> p_maxWorkers = 2, p_minWorkers = 2, p_stopped = False,
                p_jobs = [\<lparr>j_agent = ''sw1'', j_pc = AtUpdate\<rparr>] \<rparr>,
       minUpdateInterval = interval,
       inflight = {''sw1''},
       deferredUpdates = [],
       deferredUpdatesTimer = None,
       stopped = False,
       clock = 0,
       trace = [Submitted ''sw1''] \<rparr>"
  by (simp add: sw1_queued_def store_defs Let_def)

lemma sw1_queued_run:
  "run [Lookup ''sw1'' ''eth0''] (the (newStore 0 10 3600 2 interval))
     = Inr (sw1_queued interval)"
  by (simp add: sw1_queued_def store_defs Let_def)

lemma newStore_the:
  "newStore now size' ttl workers interval = Some (the (newStore now size' ttl workers interval))"
  by (simp add: newStore_def)

section \<open>Lookups that find the agent but not the index\<close>

text \<open>
  C7, as amended. With a minimum update interval of 0, in every state that a store reaches,
  the backlog is empty, and a lookup that finds a cached entry without the requested index
  only calls the notifier with that entry: it submits no job, calls no resolver and
  creates no backlog entry (the state changes in the cache's recency order and in the
  trace only).
\<close>

theorem no_throttle_partial_hit:
  assumes "newStore now size' ttl workers 0 = Some s0" and "run evs s0 = Inr s"
  shows "deferredUpdates s = [] \<and>
         (\<forall>agent index e c.
            lru_Get (clock s) agent (cache s) = (Some (Some e), c) \<and> rows e index = None \<longrightarrow>
            lookup agent index s =
              Inr (s\<lparr>cache := c, trace := trace s @ [Notified InLookup agent (Some e)]\<rparr>))"
proof -
  from assms(1) have s0: "minUpdateInterval s0 = 0" "deferredUpdates s0 = []"
    by (auto simp add: newStore_def)
  have "minUpdateInterval s = 0"
    using run_minUpdateInterval [OF assms(2)] s0 by simp
  moreover have "deferredUpdates s = []"
    using run_no_backlog [OF assms(2)] s0 by simp
  ultimately show ?thesis
    by (simp add: lookup_partial_hit_disabled)
qed

theorem no_throttle_partial_hit_witness:
  "deferredUpdates (sw1_at 0 5) = [] \<and>
   lookup ''sw1'' ''eth2'' (sw1_at 0 5) =
     Inr ((sw1_at 0 5)\<lparr>cache := cache (sw1_at 0 5),
            trace := trace (sw1_at 0 5) @ [Notified InLookup ''sw1'' (Some sw1_entry)]\<rparr>)"
proof -
  have n: "newStore 0 10 3600 2 0 = Some (the (newStore 0 10 3600 2 0))"
    by (simp add: newStore_def)
  have r: "run (resolve ''sw1'' (Some sw1_entry) @ [Tick 5]) (the (newStore 0 10 3600 2 0))
             = Inr (sw1_at 0 5)"
    by (simp add: sw1_at_run)
  have g: "lru_Get (clock (sw1_at 0 5)) ''sw1'' (cache (sw1_at 0 5))
             = (Some (Some sw1_entry), cache (sw1_at 0 5))"
    by (simp add: sw1_at_eq lru_Get_def)
  have m: "rows sw1_entry ''eth2'' = None"
    by (simp add: sw1_entry_def)
  from no_throttle_partial_hit [OF n r] g m show ?thesis by blast
qed

text \<open>
  C7 as stated fails: with interval 0, the lookup of the index \<open>eth2\<close>, which the cached entry
  of \<open>sw1\<close> does not have, leaves the pool without any job; its only call is the notifier.
\<close>

theorem no_throttle_counterexample:
  "minUpdateInterval (sw1_at 0 5) = 0 \<and>
   fst (lru_Get (clock (sw1_at 0 5)) ''sw1'' (cache (sw1_at 0 5))) = Some (Some sw1_entry) \<and>
   rows sw1_entry ''eth2'' = None \<and>
   \<not> isl (lookup ''sw1'' ''eth2'' (sw1_at 0 5)) \<and>
   p_jobs (pool (projr (lookup ''sw1'' ''eth2'' (sw1_at 0 5)))) = [] \<and>
   trace (projr (lookup ''sw1'' ''eth2'' (sw1_at 0 5))) =
     trace (sw1_at 0 5) @ [Notified InLookup ''sw1'' (Some sw1_entry)]"
  by (simp add: sw1_at_eq lru_Get_def lookup_def notify_def sw1_entry_def)




section \<open>Construction\<close>

text \<open>
  C9, as amended. \<open>newStore\<close> rejects no value: for every size, time to live, number of
  workers and minimum update interval it returns a store, not stopped, that holds the
  interval as given (the cache takes a negative size as 0 and a time to live that is not
  positive as ten years). The calls do not validate the configuration either: \<open>purge\<close>
  and the locked section of \<open>destroy\<close> always succeed, and \<open>lookup\<close> fails only on a cached
  nil entry.
\<close>

theorem newStore_accepts_every_value:
  "newStore now size' ttl workers interval \<noteq> None \<and>
   minUpdateInterval (the (newStore now size' ttl workers interval)) = interval \<and>
   lru_size (cache (the (newStore now size' ttl workers interval))) = max 0 size' \<and>
   lru_ttl (cache (the (newStore now size' ttl workers interval))) =
     (if ttl \<le> 0 then noEvictionTTL else ttl) \<and>
   \<not> stopped (the (newStore now size' ttl workers interval)) \<and>
   \<not> isl (step Purge s) \<and> \<not> isl (step DestroyLock s) \<and>
   isl (lookup agent index s) = (fst (lru_Get (clock s) agent (cache s)) = Some None)"
  by (auto simp add: newStore_def NewLRU_def lookup_def Let_def
      split: prod.splits option.splits)

theorem newStore_accepts_every_value_witness:
  "newStore 0 0 (- 5) 0 (- 7) \<noteq> None \<and>
   minUpdateInterval (the (newStore 0 0 (- 5) 0 (- 7))) = - 7 \<and>
   lru_size (cache (the (newStore 0 0 (- 5) 0 (- 7)))) = 0 \<and>
   lru_ttl (cache (the (newStore 0 0 (- 5) 0 (- 7)))) = noEvictionTTL \<and>
   \<not> stopped (the (newStore 0 0 (- 5) 0 (- 7)))"
  using newStore_accepts_every_value [of 0 0 "- 5" 0 "- 7"] by simp

text \<open>
  C9 as stated fails: a negative cache size, a negative time to live and a negative minimum
  update interval are accepted, and the store keeps the negative interval.
\<close>

theorem newStore_invalid_counterexample:
  "newStore 0 (- 1) (- 1) 2 (- 1) \<noteq> None \<and>
   minUpdateInterval (the (newStore 0 (- 1) (- 1) 2 (- 1))) = - 1"
  by (simp add: newStore_def)

section \<open>Throttling\<close>













section \<open>The completion path of a job\<close>

lemma lru_Add_Get:
  assumes "0 \<le> lru_ttl c"
  shows "fst (lru_Get now k (lru_Add now k v c)) = Some v"
proof -
  let ?items = "(k, (v, time_Add now (lru_ttl c))) # AList.delete k (lru_items c)"
  have "map_of (lru_items (lru_Add now k v c)) k = Some (v, time_Add now (lru_ttl c))"
  proof (cases "0 < lru_size c \<and> lru_size c < int (length ?items)")
    case True
    then have "AList.delete k (lru_items c) \<noteq> []" by auto
    with True show ?thesis by (simp add: lru_Add_def Let_def)
  next
    case False
    then show ?thesis by (simp add: lru_Add_def Let_def)
  qed
  with assms show ?thesis by (simp add: lru_Get_def time_Add_def)
qed

lemma job_step_AtUpdate:
  assumes "j_pc (p_jobs (pool s) ! n) = AtUpdate"
  shows "job_step n r s =
           set_pc n (AtCacheAdd r)
             (s\<lparr>trace := trace s @ [Resolved (j_agent (p_jobs (pool s) ! n)) r]\<rparr>)"
  using assms by (simp add: job_step_def Let_def)

lemma job_step_AtCacheAdd:
  assumes "j_pc (p_jobs (pool s) ! n) = AtCacheAdd e"
  shows "job_step n r s =
           set_pc n (AtRemoveBacklog e)
             (s\<lparr>cache := lru_Add (clock s) (j_agent (p_jobs (pool s) ! n)) e (cache s),
                trace := trace s @ [Installed (j_agent (p_jobs (pool s) ! n)) e]\<rparr>)"
  using assms by (simp add: job_step_def Let_def)

lemma job_step_AtRemoveBacklog:
  assumes "j_pc (p_jobs (pool s) ! n) = AtRemoveBacklog e"
  shows "job_step n r s =
           set_pc n (AtNotify e)
             (removeBacklog (j_agent (p_jobs (pool s) ! n))
                (s\<lparr>trace := trace s @ [Unqueued (j_agent (p_jobs (pool s) ! n))]\<rparr>))"
  using assms by (simp add: job_step_def Let_def)

lemma job_step_AtNotify:
  assumes "j_pc (p_jobs (pool s) ! n) = AtNotify e"
  shows "job_step n r s =
           set_pc n AtInflightDelete (notify InJob (j_agent (p_jobs (pool s) ! n)) e s)"
  using assms by (simp add: job_step_def Let_def)

lemma job_step_AtInflightDelete:
  assumes "j_pc (p_jobs (pool s) ! n) = AtInflightDelete"
  shows "job_step n r s =
           finish n (s\<lparr>inflight := inflight s - {j_agent (p_jobs (pool s) ! n)},
                       trace := trace s @ [Released (j_agent (p_jobs (pool s) ! n))]\<rparr>)"
  using assms by (simp add: job_step_def Let_def)

text \<open>The five statements of a job, run one after the other with nothing in between.\<close>

lemma run_job:
  assumes n: "n < length (p_jobs (pool s))"
    and pc: "j_pc (p_jobs (pool s) ! n) = AtUpdate"
    and k: "j_agent (p_jobs (pool s) ! n) = k"
  shows "\<exists>s'. run [JobStep n r, JobStep n r1, JobStep n r2, JobStep n r3, JobStep n r4] s
                 = Inr s' \<and>
           trace s' = trace s @ [Resolved k r, Installed k r, Unqueued k,
                                 Notified InJob k r, Released k] \<and>
           cache s' = lru_Add (clock s) k r (cache s) \<and>
           clock s' = clock s \<and>
           deferredUpdates s' = AList.delete k (deferredUpdates s) \<and>
           inflight s' = inflight s - {k} \<and>
           p_jobs (pool s') = take n (p_jobs (pool s)) @ drop (Suc n) (p_jobs (pool s))"
proof -
  let ?s1 = "job_step n r s"
  let ?s2 = "job_step n r1 ?s1"
  let ?s3 = "job_step n r2 ?s2"
  let ?s4 = "job_step n r3 ?s3"
  let ?s5 = "job_step n r4 ?s4"
  have s1: "n < length (p_jobs (pool ?s1))" "j_pc (p_jobs (pool ?s1) ! n) = AtCacheAdd r"
    "j_agent (p_jobs (pool ?s1) ! n) = k"
    using n pc k by (simp_all add: job_step_AtUpdate)
  have f1: "trace ?s1 = trace s @ [Resolved k r]" "cache ?s1 = cache s" "clock ?s1 = clock s"
    "deferredUpdates ?s1 = deferredUpdates s" "inflight ?s1 = inflight s"
    "take n (p_jobs (pool ?s1)) = take n (p_jobs (pool s))"
    "drop (Suc n) (p_jobs (pool ?s1)) = drop (Suc n) (p_jobs (pool s))"
    using n pc k by (simp_all add: job_step_AtUpdate)
  have s2: "n < length (p_jobs (pool ?s2))" "j_pc (p_jobs (pool ?s2) ! n) = AtRemoveBacklog r"
    "j_agent (p_jobs (pool ?s2) ! n) = k"
    using s1 by (simp_all add: job_step_AtCacheAdd)
  have f2: "trace ?s2 = trace ?s1 @ [Installed k r]"
    "cache ?s2 = lru_Add (clock ?s1) k r (cache ?s1)" "clock ?s2 = clock ?s1"
    "deferredUpdates ?s2 = deferredUpdates ?s1" "inflight ?s2 = inflight ?s1"
    "take n (p_jobs (pool ?s2)) = take n (p_jobs (pool ?s1))"
    "drop (Suc n) (p_jobs (pool ?s2)) = drop (Suc n) (p_jobs (pool ?s1))"
    using s1 by (simp_all add: job_step_AtCacheAdd)
  have s3: "n < length (p_jobs (pool ?s3))" "j_pc (p_jobs (pool ?s3) ! n) = AtNotify r"
    "j_agent (p_jobs (pool ?s3) ! n) = k"
    using s2 by (simp_all add: job_step_AtRemoveBacklog)
  have f3: "trace ?s3 = trace ?s2 @ [Unqueued k]" "cache ?s3 = cache ?s2" "clock ?s3 = clock ?s2"
    "deferredUpdates ?s3 = AList.delete k (deferredUpdates ?s2)" "inflight ?s3 = inflight ?s2"
    "take n (p_jobs (pool ?s3)) = take n (p_jobs (pool ?s2))"
    "drop (Suc n) (p_jobs (pool ?s3)) = drop (Suc n) (p_jobs (pool ?s2))"
    using s2 by (simp_all add: job_step_AtRemoveBacklog)
  have s4: "n < length (p_jobs (pool ?s4))" "j_pc (p_jobs (pool ?s4) ! n) = AtInflightDelete"
    "j_agent (p_jobs (pool ?s4) ! n) = k"
    using s3 by (simp_all add: job_step_AtNotify)
  have f4: "trace ?s4 = trace ?s3 @ [Notified InJob k r]" "cache ?s4 = cache ?s3"
    "clock ?s4 = clock ?s3"
    "deferredUpdates ?s4 = deferredUpdates ?s3" "inflight ?s4 = inflight ?s3"
    "take n (p_jobs (pool ?s4)) = take n (p_jobs (pool ?s3))"
    "drop (Suc n) (p_jobs (pool ?s4)) = drop (Suc n) (p_jobs (pool ?s3))"
    using s3 by (simp_all add: job_step_AtNotify)
  have f5: "trace ?s5 = trace ?s4 @ [Released k]" "cache ?s5 = cache ?s4"
    "clock ?s5 = clock ?s4"
    "deferredUpdates ?s5 = deferredUpdates ?s4" "inflight ?s5 = inflight ?s4 - {k}"
    "p_jobs (pool ?s5) = take n (p_jobs (pool ?s4)) @ drop (Suc n) (p_jobs (pool ?s4))"
    using s4 by (simp_all add: job_step_AtInflightDelete)
  have "run [JobStep n r, JobStep n r1, JobStep n r2, JobStep n r3, JobStep n r4] s = Inr ?s5"
    using n s1(1) s2(1) s3(1) s4(1) by simp
  then show ?thesis
    using f1 f2 f3 f4 f5 by simp
qed

lemma lru_Get_config [simp]:
  "lru_ttl (snd (lru_Get now k c)) = lru_ttl c"
  "lru_size (snd (lru_Get now k c)) = lru_size c"
  by (simp_all add: lru_Get_def split: option.splits)

lemma lru_Add_config [simp]:
  "lru_ttl (lru_Add now k v c) = lru_ttl c"
  "lru_size (lru_Add now k v c) = lru_size c"
  by (simp_all add: lru_Add_def Let_def)

lemma job_step_cache_config:
  "lru_ttl (cache (job_step n r s)) = lru_ttl (cache s)"
  by (simp add: job_step_def Let_def split: pc.splits)

lemma step_lru_ttl:
  "step ev s = Inr s' \<Longrightarrow> lru_ttl (cache s') = lru_ttl (cache s)"
proof (cases ev)
  case (Lookup agent index)
  assume "step ev s = Inr s'"
  with Lookup have "lookup agent index s = Inr s'" by simp
  then show ?thesis by (cases rule: lookup_cases) simp_all
qed (auto simp add: destroy_locked_def pool_stop_def purge_def lru_Purge_def
       job_step_cache_config split: if_splits option.splits)

lemma run_lru_ttl:
  "run evs s = Inr s' \<Longrightarrow> lru_ttl (cache s') = lru_ttl (cache s)"
proof (induction evs arbitrary: s)
  case Nil
  then show ?case by simp
next
  case (Cons ev evs)
  then show ?case
    by (auto split: sum.splits dest: step_lru_ttl)
qed

lemma newStore_lru_ttl:
  "newStore now size' ttl workers interval = Some s \<Longrightarrow> 0 < lru_ttl (cache s)"
  by (auto simp add: newStore_def NewLRU_def noEvictionTTL_def)

lemma lru_Add_slot:
  "[p \<leftarrow> lru_items (lru_Add now k v c). fst p = k] = [(k, (v, time_Add now (lru_ttl c)))]"
proof -
  let ?rest = "AList.delete k (lru_items c)"
  have rest: "[p \<leftarrow> ?rest. fst p = k] = []"
    by (auto simp add: AList.delete_eq filter_empty_conv)
  then have "[p \<leftarrow> butlast ?rest. fst p = k] = []"
    by (auto simp add: filter_empty_conv dest: in_set_butlastD)
  with rest show ?thesis
    by (auto simp add: lru_Add_def Let_def)
qed

text \<open>
  C10. In every state that a store reaches, a job that has not yet called the resolver and
  then runs its five statements installs whatever the resolver returns (\<open>r\<close>, which may be
  nil) into the cache, unconditionally: afterwards the cache has exactly one slot for the
  agent, it holds \<open>r\<close>, and \<open>Get\<close> finds \<open>r\<close>; and the one call of the notifier that the job makes
  passes the same \<open>r\<close>.
\<close>

theorem job_installs_what_update_returns:
  assumes "newStore now size' ttl workers interval = Some s0" and "run evs s0 = Inr s"
    and "n < length (p_jobs (pool s))"
    and "j_pc (p_jobs (pool s) ! n) = AtUpdate"
    and "j_agent (p_jobs (pool s) ! n) = k"
  shows "\<exists>s'. run [JobStep n r, JobStep n r1, JobStep n r2, JobStep n r3, JobStep n r4] s
                 = Inr s' \<and>
           cache s' = lru_Add (clock s) k r (cache s) \<and>
           [p \<leftarrow> lru_items (cache s'). fst p = k] =
             [(k, (r, time_Add (clock s) (lru_ttl (cache s))))] \<and>
           fst (lru_Get (clock s') k (cache s')) = Some r \<and>
           trace s' = trace s @ [Resolved k r, Installed k r, Unqueued k,
                                 Notified InJob k r, Released k]"
proof -
  have "0 < lru_ttl (cache s)"
    using newStore_lru_ttl [OF assms(1)] run_lru_ttl [OF assms(2)] by simp
  then have "fst (lru_Get (clock s) k (lru_Add (clock s) k r (cache s))) = Some r"
    by (simp add: lru_Add_Get)
  with run_job [OF assms(3-5), of r r1 r2 r3 r4] show ?thesis
    by (auto simp add: lru_Add_slot simp del: run.simps)
qed

theorem job_installs_what_update_returns_witness:
  "\<exists>s'. run [JobStep 0 None, JobStep 0 None, JobStep 0 None, JobStep 0 None, JobStep 0 None]
            (sw1_queued 30) = Inr s' \<and>
     [p \<leftarrow> lru_items (cache s'). fst p = ''sw1''] = [(''sw1'', (None, 3600))] \<and>
     fst (lru_Get (clock s') ''sw1'' (cache s')) = Some None \<and>
     trace s' = [Submitted ''sw1'', Resolved ''sw1'' None, Installed ''sw1'' None,
                 Unqueued ''sw1'', Notified InJob ''sw1'' None, Released ''sw1'']"
proof -
  have j: "0 < length (p_jobs (pool (sw1_queued 30)))"
    "j_pc (p_jobs (pool (sw1_queued 30)) ! 0) = AtUpdate"
    "j_agent (p_jobs (pool (sw1_queued 30)) ! 0) = ''sw1''"
    by (simp_all add: sw1_queued_eq)
  have v: "time_Add (clock (sw1_queued 30)) (lru_ttl (cache (sw1_queued 30))) = 3600"
    "trace (sw1_queued 30) = [Submitted ''sw1'']"
    by (simp_all add: sw1_queued_eq time_Add_def)
  from job_installs_what_update_returns [OF newStore_the sw1_queued_run j,
      of None None None None None] v
  show ?thesis by (auto simp del: run.simps)
qed

section \<open>Jobs and in-flight marks\<close>

lemma remove_nth_distinct:
  assumes "distinct xs" and "n < length xs"
  shows "distinct (take n xs @ drop (Suc n) xs)"
    and "set (take n xs @ drop (Suc n) xs) = set xs - {xs ! n}"
proof -
  have xs: "xs = take n xs @ xs ! n # drop (Suc n) xs"
    using assms(2) by (rule id_take_nth_drop)
  with assms(1) have d: "distinct (take n xs @ xs ! n # drop (Suc n) xs)"
    by simp
  then show "distinct (take n xs @ drop (Suc n) xs)"
    by simp
  have "set xs = set (take n xs @ xs ! n # drop (Suc n) xs)"
    using xs by simp
  also have "\<dots> = insert (xs ! n) (set (take n xs @ drop (Suc n) xs))"
    by simp
  finally show "set (take n xs @ drop (Suc n) xs) = set xs - {xs ! n}"
    using d by auto
qed

lemma agents_enqueue:
  "agents (enqueue a s) =
     (if a \<in> inflight s \<or> p_stopped (pool s) then agents s else agents s @ [a])"
  by (simp add: agents_def enqueue_jobs)

lemma agents_cache [simp]: "agents (s\<lparr>cache := c\<rparr>) = agents s"
  by (simp add: agents_def)

lemma agents_notify [simp]: "agents (notify w a e s) = agents s"
  by (simp add: agents_def)

lemma agents_addBacklog [simp]: "agents (addBacklog a t s) = agents s"
  by (simp add: agents_def)

lemma map_update_same:
  "n < length xs \<Longrightarrow> (map f xs)[n := f (xs ! n)] = map f xs"
  by (simp add: list_update_same_conv)

lemma agents_job_step:
  assumes "n < length (p_jobs (pool s))"
  shows "agents (job_step n r s) =
     (if j_pc (p_jobs (pool s) ! n) = AtInflightDelete
      then take n (agents s) @ drop (Suc n) (agents s) else agents s)"
  using assms
  by (auto simp add: agents_def job_step_def Let_def map_update map_update_same take_map
      drop_map split: pc.splits)

lemma inflight_job_step:
  "inflight (job_step n r s) =
     (if j_pc (p_jobs (pool s) ! n) = AtInflightDelete
      then inflight s - {j_agent (p_jobs (pool s) ! n)} else inflight s)"
  by (simp add: job_step_def Let_def split: pc.splits)

lemma jobs_inv_enqueue:
  assumes "jobs_inv s"
  shows "jobs_inv (enqueue a s)"
  using assms by (auto simp add: jobs_inv_def agents_enqueue)

lemma jobs_inv_job_step:
  assumes "jobs_inv s" and "n < length (p_jobs (pool s))"
  shows "jobs_inv (job_step n r s)"
proof (cases "j_pc (p_jobs (pool s) ! n) = AtInflightDelete")
  case True
  have n: "n < length (agents s)" using assms(2) by (simp add: agents_def)
  have a: "agents s ! n = j_agent (p_jobs (pool s) ! n)"
    using assms(2) by (simp add: agents_def)
  have d: "distinct (agents s)" using assms(1) by (simp add: jobs_inv_def)
  from remove_nth_distinct [OF d n] True assms show ?thesis
    by (auto simp add: jobs_inv_def agents_job_step inflight_job_step a)
next
  case False
  with assms show ?thesis
    by (simp add: jobs_inv_def agents_job_step inflight_job_step)
qed

lemma jobs_inv_frame:
  assumes "jobs_inv s" and "agents s' = agents s" and "inflight s' = inflight s"
    and "p_stopped (pool s) \<longrightarrow> p_stopped (pool s')"
  shows "jobs_inv s'"
  using assms by (auto simp add: jobs_inv_def)

lemma jobs_inv_step:
  assumes "step ev s = Inr s'" and "jobs_inv s"
  shows "jobs_inv s'"
proof (cases ev)
  case (Lookup agent index)
  with assms have "lookup agent index s = Inr s'" by simp
  then show ?thesis
  proof (cases rule: lookup_cases)
    case (enq c)
    have "jobs_inv (s\<lparr>cache := c\<rparr>)"
      using assms(2) by (rule jobs_inv_frame) simp_all
    then show ?thesis unfolding enq by (rule jobs_inv_enqueue)
  next
    case (later c e)
    show ?thesis using assms(2) unfolding later by (rule jobs_inv_frame) simp_all
  next
    case (hit c e)
    show ?thesis using assms(2) unfolding hit by (rule jobs_inv_frame) simp_all
  qed
next
  case (JobStep n r)
  with assms show ?thesis
    by (auto simp add: jobs_inv_job_step split: if_splits)
next
  case TimerFire
  with assms obtain t where s': "s' = enqueue (t_agent t) (s\<lparr>deferredUpdatesTimer := Some (timer_Stop t)\<rparr>)"
    by (auto split: option.splits if_splits)
  have "jobs_inv (s\<lparr>deferredUpdatesTimer := Some (timer_Stop t)\<rparr>)"
    using assms(2) by (rule jobs_inv_frame) (simp_all add: agents_def)
  then show ?thesis unfolding s' by (rule jobs_inv_enqueue)
qed (use assms in \<open>auto split: if_splits elim!: jobs_inv_frame
       simp add: agents_def destroy_locked_def pool_stop_def purge_def\<close>)

lemma jobs_inv_run:
  "run evs s = Inr s' \<Longrightarrow> jobs_inv s \<Longrightarrow> jobs_inv s'"
proof (induction evs arbitrary: s)
  case Nil
  then show ?case by simp
next
  case (Cons ev evs)
  from Cons.prems obtain s1 where s1: "step ev s = Inr s1" and r: "run evs s1 = Inr s'"
    by (auto split: sum.splits)
  from Cons.IH [OF r jobs_inv_step [OF s1 Cons.prems(2)]] show ?case .
qed

lemma jobs_inv_newStore:
  "newStore now size' ttl workers interval = Some s \<Longrightarrow> jobs_inv s"
  by (auto simp add: newStore_def jobs_inv_def agents_def pond_New_def)

subsection \<open>The job of an agent\<close>

lemma map_of_update_nth:
  assumes "distinct (map fst ys)" and "n < length ys" and "fst (ys ! n) = a"
  shows "map_of (ys[n := (a, p)]) = (map_of ys)(a \<mapsto> p)"
  using assms
proof (induction ys arbitrary: n)
  case Nil
  then show ?case by simp
next
  case (Cons y ys)
  show ?case
  proof (cases n)
    case 0
    with Cons.prems have "fst y = a" by simp
    then have eq: "map_of ((y # ys)[0 := (a, p)]) x = ((map_of (y # ys))(a \<mapsto> p)) x" for x
      by (cases y) simp
    show ?thesis unfolding 0 by (rule ext) (rule eq)
  next
    case (Suc m)
    with Cons.prems have m: "m < length ys" "fst (ys ! m) = a" "distinct (map fst ys)"
      by simp_all
    then have "fst (ys ! m) \<in> fst ` set ys"
      by (intro imageI nth_mem)
    then have "a \<in> fst ` set ys"
      using m(2) by simp
    moreover have "fst y \<notin> fst ` set ys"
      using Cons.prems(1) by simp
    ultimately have ne: "a \<noteq> fst y"
      by (intro notI) simp
    have "map_of ((y # ys)[n := (a, p)]) = (map_of (ys[m := (a, p)]))(fst y \<mapsto> snd y)"
      using Suc by (cases y) simp
    also have "\<dots> = ((map_of ys)(a \<mapsto> p))(fst y \<mapsto> snd y)"
      by (simp only: Cons.IH [OF m(3) m(1) m(2)])
    also have "\<dots> = ((map_of ys)(fst y \<mapsto> snd y))(a \<mapsto> p)"
      using ne by (rule fun_upd_twist)
    also have "\<dots> = (map_of (y # ys))(a \<mapsto> p)"
      by (cases y) simp
    finally show ?thesis .
  qed
qed

lemma map_of_remove_nth:
  assumes "distinct (map fst ys)" and "n < length ys"
  shows "map_of (take n ys @ drop (Suc n) ys) = (map_of ys)(fst (ys ! n) := None)"
  using assms
proof (induction ys arbitrary: n)
  case Nil
  then show ?case by simp
next
  case (Cons y ys)
  show ?case
  proof (cases n)
    case 0
    have "fst y \<notin> fst ` set ys"
      using Cons.prems(1) by simp
    then have "map_of ys (fst y) = None"
      by (simp add: map_of_eq_None_iff)
    then have eq: "map_of (take 0 (y # ys) @ drop (Suc 0) (y # ys)) x
                 = ((map_of (y # ys))(fst ((y # ys) ! 0) := None)) x" for x
      by (cases y) simp
    show ?thesis unfolding 0 by (rule ext) (rule eq)
  next
    case (Suc m)
    with Cons.prems have m: "m < length ys" "distinct (map fst ys)"
      by simp_all
    then have mem: "fst (ys ! m) \<in> fst ` set ys"
      by (intro imageI nth_mem)
    have "fst y \<notin> fst ` set ys"
      using Cons.prems(1) by simp
    with mem have ne: "fst (ys ! m) \<noteq> fst y"
      by (intro notI) simp
    have "map_of (take n (y # ys) @ drop (Suc n) (y # ys))
            = (map_of (take m ys @ drop (Suc m) ys))(fst y \<mapsto> snd y)"
      using Suc by (cases y) simp
    also have "\<dots> = ((map_of ys)(fst (ys ! m) := None))(fst y \<mapsto> snd y)"
      by (simp only: Cons.IH [OF m(2) m(1)])
    also have "\<dots> = ((map_of ys)(fst y \<mapsto> snd y))(fst (ys ! m) := None)"
      using ne by (rule fun_upd_twist)
    also have "\<dots> = (map_of (y # ys))(fst ((y # ys) ! n) := None)"
      using Suc by (cases y) simp
    finally show ?thesis .
  qed
qed

lemma job_of_None: "job_of k s = None \<longleftrightarrow> k \<notin> set (agents s)"
  by (auto simp add: job_of_def agents_def map_of_eq_None_iff image_image)

lemma job_of_enqueue:
  assumes "jobs_inv s"
  shows "job_of k (enqueue a s) =
     (if k = a \<and> a \<notin> inflight s \<and> \<not> p_stopped (pool s) then Some AtUpdate else job_of k s)"
proof -
  have "a \<notin> inflight s \<Longrightarrow> job_of a s = None"
    using assms by (auto simp add: job_of_None jobs_inv_def)
  then show ?thesis
    by (auto simp add: job_of_def enqueue_jobs map_add_def split: option.splits)
qed

lemma job_of_job_step:
  assumes "jobs_inv s" and "n < length (p_jobs (pool s))"
  shows "job_of k (job_step n r s) =
     (if k = j_agent (p_jobs (pool s) ! n)
      then (case j_pc (p_jobs (pool s) ! n) of
              AtUpdate \<Rightarrow> Some (AtCacheAdd r)
            | AtCacheAdd e \<Rightarrow> Some (AtRemoveBacklog e)
            | AtRemoveBacklog e \<Rightarrow> Some (AtNotify e)
            | AtNotify e \<Rightarrow> Some AtInflightDelete
            | AtInflightDelete \<Rightarrow> None)
      else job_of k s)"
proof -
  let ?g = "\<lambda>j. (j_agent j, j_pc j)"
  let ?ys = "map ?g (p_jobs (pool s))"
  have d: "distinct (map fst ?ys)"
    using assms(1) by (simp add: jobs_inv_def agents_def comp_def)
  have n: "n < length ?ys" using assms(2) by simp
  have a: "fst (?ys ! n) = j_agent (p_jobs (pool s) ! n)"
    using assms(2) by simp
  have upd: "map_of (map ?g ((p_jobs (pool s))[n := (p_jobs (pool s) ! n)\<lparr>j_pc := p\<rparr>]))
               = (map_of ?ys)(j_agent (p_jobs (pool s) ! n) \<mapsto> p)" for p
    using map_of_update_nth [OF d n a, of p] by (simp add: map_update)
  have rem: "map_of (map ?g (take n (p_jobs (pool s)) @ drop (Suc n) (p_jobs (pool s))))
               = (map_of ?ys)(j_agent (p_jobs (pool s) ! n) := None)"
    using map_of_remove_nth [OF d n] a by (simp add: take_map drop_map)
  show ?thesis
  proof (cases "j_pc (p_jobs (pool s) ! n) = AtInflightDelete")
    case True
    then have "p_jobs (pool (job_step n r s)) =
        take n (p_jobs (pool s)) @ drop (Suc n) (p_jobs (pool s))"
      by (simp add: job_step_def Let_def)
    then have "job_of k (job_step n r s) =
        ((map_of ?ys)(j_agent (p_jobs (pool s) ! n) := None)) k"
      by (simp only: job_of_def rem)
    with True show ?thesis by (simp add: job_of_def)
  next
    case False
    then show ?thesis
      by (cases "j_pc (p_jobs (pool s) ! n)")
         (simp_all add: job_of_def job_step_def Let_def upd)
  qed
qed

lemma job_of_nth:
  assumes "jobs_inv s" and "n < length (p_jobs (pool s))"
  shows "job_of (j_agent (p_jobs (pool s) ! n)) s = Some (j_pc (p_jobs (pool s) ! n))"
proof -
  have "distinct (map fst (map (\<lambda>j. (j_agent j, j_pc j)) (p_jobs (pool s))))"
    using assms(1) by (simp add: jobs_inv_def agents_def comp_def)
  moreover have "(j_agent (p_jobs (pool s) ! n), j_pc (p_jobs (pool s) ! n))
      \<in> set (map (\<lambda>j. (j_agent j, j_pc j)) (p_jobs (pool s)))"
    using assms(2) by (auto intro!: image_eqI [of _ _ "p_jobs (pool s) ! n"])
  ultimately show ?thesis
    unfolding job_of_def by (rule map_of_is_SomeI)
qed

subsection \<open>What a step adds to the trace and does to the jobs\<close>

lemma job_of_unchanged [simp]:
  "job_of k (s\<lparr>cache := c\<rparr>) = job_of k s"
  "job_of k (s\<lparr>deferredUpdatesTimer := t\<rparr>) = job_of k s"
  "job_of k (notify w a e s) = job_of k s"
  "job_of k (addBacklog a d s) = job_of k s"
  by (simp_all add: job_of_def)

lemma enqueue_effect:
  assumes "jobs_inv s"
  obtains
    (silent) "trace (enqueue a s) = trace s" "\<And>k. job_of k (enqueue a s) = job_of k s"
  | (submit) "trace (enqueue a s) = trace s @ [Submitted a]" "job_of a s = None"
      "\<And>k. job_of k (enqueue a s) = (if k = a then Some AtUpdate else job_of k s)"
proof (cases "a \<in> inflight s \<or> p_stopped (pool s)")
  case True
  then show ?thesis
    using silent assms by (auto simp add: enqueue_trace job_of_enqueue)
next
  case False
  then have "a \<notin> set (agents s)"
    using assms by (auto simp add: jobs_inv_def)
  then have "job_of a s = None" by (simp add: job_of_None)
  with False show ?thesis
    using submit assms by (auto simp add: enqueue_trace job_of_enqueue)
qed

lemma step_quiet:
  assumes "step ev s = Inr s'"
    and "ev = Tick d \<or> ev = DestroyLock \<or> ev = DestroyStop \<or> ev = DestroyWait \<or>
         ev = Purge \<or> ev = Shuffle al"
  shows "trace s' = trace s \<and> p_jobs (pool s') = p_jobs (pool s)"
  using assms
  by (auto split: if_splits simp add: destroy_locked_def pool_stop_def purge_def)

lemma step_effect:
  assumes "step ev s = Inr s'" and "jobs_inv s"
  obtains
    (silent) "trace s' = trace s" "\<And>k. job_of k s' = job_of k s"
  | (answer) a e where "trace s' = trace s @ [Notified InLookup a e]"
      "\<And>k. job_of k s' = job_of k s"
  | (submit) a where "trace s' = trace s @ [Submitted a]" "job_of a s = None"
      "\<And>k. job_of k s' = (if k = a then Some AtUpdate else job_of k s)"
  | (resolve) a r where "trace s' = trace s @ [Resolved a r]" "job_of a s = Some AtUpdate"
      "\<And>k. job_of k s' = (if k = a then Some (AtCacheAdd r) else job_of k s)"
  | (install) a e where "trace s' = trace s @ [Installed a e]"
      "job_of a s = Some (AtCacheAdd e)"
      "\<And>k. job_of k s' = (if k = a then Some (AtRemoveBacklog e) else job_of k s)"
  | (unqueue) a e where "trace s' = trace s @ [Unqueued a]"
      "job_of a s = Some (AtRemoveBacklog e)"
      "\<And>k. job_of k s' = (if k = a then Some (AtNotify e) else job_of k s)"
  | (notify) a e where "trace s' = trace s @ [Notified InJob a e]"
      "job_of a s = Some (AtNotify e)"
      "\<And>k. job_of k s' = (if k = a then Some AtInflightDelete else job_of k s)"
  | (release) a where "trace s' = trace s @ [Released a]"
      "job_of a s = Some AtInflightDelete"
      "\<And>k. job_of k s' = (if k = a then None else job_of k s)"
proof (cases ev)
  case (Lookup agent index)
  with assms have "lookup agent index s = Inr s'" by simp
  then show ?thesis
  proof (cases rule: lookup_cases)
    case (enq c)
    have inv: "jobs_inv (s\<lparr>cache := c\<rparr>)"
      using assms(2) by (rule jobs_inv_frame) simp_all
    from inv show ?thesis
    proof (cases rule: enqueue_effect [where a = agent])
      case silent
      then show ?thesis using enq that(1) by simp
    next
      case submit
      then show ?thesis using enq that(3) [of agent] by simp
    qed
  next
    case (later c e)
    then show ?thesis using that(2) [of agent "Some e"] by simp
  next
    case (hit c e)
    then show ?thesis using that(2) [of agent "Some e"] by simp
  qed
next
  case (JobStep n r)
  with assms have n: "n < length (p_jobs (pool s))" and s': "s' = job_step n r s"
    by (auto split: if_splits)
  let ?a = "j_agent (p_jobs (pool s) ! n)"
  note j = job_of_job_step [OF assms(2) n, of _ r] job_of_nth [OF assms(2) n]
  show ?thesis
  proof (cases "j_pc (p_jobs (pool s) ! n)")
    case AtUpdate
    then show ?thesis using that(4) [of ?a r] j
      by (simp add: s' job_step_def Let_def)
  next
    case (AtCacheAdd e)
    then show ?thesis using that(5) [of ?a e] j
      by (simp add: s' job_step_def Let_def)
  next
    case (AtRemoveBacklog e)
    then show ?thesis using that(6) [of ?a e] j
      by (simp add: s' job_step_def Let_def)
  next
    case (AtNotify e)
    then show ?thesis using that(7) [of ?a e] j
      by (simp add: s' job_step_def Let_def)
  next
    case AtInflightDelete
    then show ?thesis using that(8) [of ?a] j
      by (simp add: s' job_step_def Let_def)
  qed
next
  case TimerFire
  with assms obtain t where
    s': "s' = enqueue (t_agent t) (s\<lparr>deferredUpdatesTimer := Some (timer_Stop t)\<rparr>)"
    by (auto split: option.splits if_splits)
  let ?s = "s\<lparr>deferredUpdatesTimer := Some (timer_Stop t)\<rparr>"
  have inv: "jobs_inv ?s"
    using assms(2) by (rule jobs_inv_frame) (simp_all add: agents_def)
  from inv show ?thesis
  proof (cases rule: enqueue_effect [where a = "t_agent t"])
    case silent
    then show ?thesis using s' that(1) by simp
  next
    case submit
    then show ?thesis using s' that(3) [of "t_agent t"] by simp
  qed
next
  case (Tick d)
  with step_quiet [OF assms(1), of d] that(1) show ?thesis
    by (simp add: job_of_def)
next
  case DestroyLock
  with step_quiet [OF assms(1)] that(1) show ?thesis
    by (simp add: job_of_def)
next
  case DestroyStop
  with step_quiet [OF assms(1)] that(1) show ?thesis
    by (simp add: job_of_def)
next
  case DestroyWait
  with step_quiet [OF assms(1)] that(1) show ?thesis
    by (simp add: job_of_def)
next
  case Purge
  with step_quiet [OF assms(1)] that(1) show ?thesis
    by (simp add: job_of_def)
next
  case (Shuffle al)
  with step_quiet [OF assms(1), of _ al] that(1) show ?thesis
    by (simp add: job_of_def)
qed

subsection \<open>Invariants of the trace\<close>

lemma track_snoc:
  "track k (tr @ [a]) = (case track k tr of None \<Rightarrow> None | Some p \<Rightarrow> advance k p a)"
  by (simp add: track_def)

lemma track_step:
  assumes "step ev s = Inr s'" and "jobs_inv s"
    and "track k (trace s) = Some (job_of k s)"
  shows "track k (trace s') = Some (job_of k s')"
  using assms(1,2)
  by (cases rule: step_effect) (auto simp add: track_snoc assms(3))

lemma track_run:
  "run evs s = Inr s' \<Longrightarrow> jobs_inv s \<Longrightarrow> track k (trace s) = Some (job_of k s) \<Longrightarrow>
     track k (trace s') = Some (job_of k s')"
proof (induction evs arbitrary: s)
  case Nil
  then show ?case by simp
next
  case (Cons ev evs)
  from Cons.prems obtain s1 where s1: "step ev s = Inr s1" and r: "run evs s1 = Inr s'"
    by (auto split: sum.splits)
  from Cons.IH [OF r jobs_inv_step [OF s1 Cons.prems(2)]
      track_step [OF s1 Cons.prems(2) Cons.prems(3)]]
  show ?case .
qed





lemma newStore_fresh:
  assumes "newStore now size' ttl workers interval = Some s"
  shows "trace s = []" and "p_jobs (pool s) = []" and "inflight s = {}"
    and "deferredUpdates s = []" and "deferredUpdatesTimer s = None"
    and "\<not> stopped s" and "\<not> p_stopped (pool s)"
  using assms by (auto simp add: newStore_def pond_New_def)



section \<open>One resolution per agent\<close>





section \<open>Jobs run to completion\<close>

lemma job_step_not_last:
  assumes "n < length (p_jobs (pool s))" and "j_pc (p_jobs (pool s) ! n) \<noteq> AtInflightDelete"
  shows "length (p_jobs (pool (job_step n r s))) = length (p_jobs (pool s))"
    and "remaining (j_pc (p_jobs (pool (job_step n r s)) ! n)) =
           remaining (j_pc (p_jobs (pool s) ! n)) - 1"
    and "j_agent (p_jobs (pool (job_step n r s)) ! n) = j_agent (p_jobs (pool s) ! n)"
    and "take n (p_jobs (pool (job_step n r s))) = take n (p_jobs (pool s))"
    and "drop (Suc n) (p_jobs (pool (job_step n r s))) = drop (Suc n) (p_jobs (pool s))"
    and "inflight (job_step n r s) = inflight s"
  using assms by (simp_all add: job_step_def Let_def split: pc.splits)

lemma job_step_last:
  assumes "j_pc (p_jobs (pool s) ! n) = AtInflightDelete"
  shows "p_jobs (pool (job_step n r s)) =
           take n (p_jobs (pool s)) @ drop (Suc n) (p_jobs (pool s))"
    and "inflight (job_step n r s) = inflight s - {j_agent (p_jobs (pool s) ! n)}"
  using assms by (simp_all add: job_step_def Let_def)

lemma run_remaining:
  assumes "n < length (p_jobs (pool s))" and "m = remaining (j_pc (p_jobs (pool s) ! n))"
  shows "\<exists>s'. run (replicate m (JobStep n r)) s = Inr s' \<and>
           p_jobs (pool s') = take n (p_jobs (pool s)) @ drop (Suc n) (p_jobs (pool s)) \<and>
           inflight s' = inflight s - {j_agent (p_jobs (pool s) ! n)} \<and>
           stopped s' = stopped s \<and> p_stopped (pool s') = p_stopped (pool s)"
  using assms
proof (induction m arbitrary: s)
  case 0
  then show ?case by (cases "j_pc (p_jobs (pool s) ! n)") simp_all
next
  case (Suc m)
  show ?case
  proof (cases "j_pc (p_jobs (pool s) ! n) = AtInflightDelete")
    case True
    with Suc.prems have "m = 0" by simp
    with True Suc.prems show ?thesis
      by (simp add: job_step_last)
  next
    case False
    let ?s1 = "job_step n r s"
    note f = job_step_not_last [OF Suc.prems(1) False, of r]
    have n1: "n < length (p_jobs (pool ?s1))" using f(1) Suc.prems(1) by simp
    have m1: "m = remaining (j_pc (p_jobs (pool ?s1) ! n))" using f(2) Suc.prems(2) by simp
    from Suc.IH [OF n1 m1] obtain s' where s':
      "run (replicate m (JobStep n r)) ?s1 = Inr s'"
      "p_jobs (pool s') = take n (p_jobs (pool ?s1)) @ drop (Suc n) (p_jobs (pool ?s1))"
      "inflight s' = inflight ?s1 - {j_agent (p_jobs (pool ?s1) ! n)}"
      "stopped s' = stopped ?s1" "p_stopped (pool s') = p_stopped (pool ?s1)"
      by blast
    have "run (replicate (Suc m) (JobStep n r)) s = Inr s'"
      using s'(1) Suc.prems(1) by simp
    with s' f show ?thesis by simp
  qed
qed

lemma destroyed_eq:
  "destroyed interval =
     \<lparr> cache = \<lparr> lru_size = 10, lru_ttl = 3600, lru_items = [] \<rparr>,
       pool = \<lparr> p_maxWorkers = 2, p_minWorkers = 2, p_stopped = True, p_jobs = [] \<rparr>,
       minUpdateInterval = interval,
       inflight = {},
       deferredUpdates = [],
       deferredUpdatesTimer = None,
       stopped = True,
       clock = 0,
       trace = [] \<rparr>"
  by (simp add: destroyed_def destroy_def store_defs Let_def)

lemma destroyed_run:
  "run destroy (the (newStore 0 10 3600 2 interval))
     = Inr (destroyed interval)"
  by (simp add: destroyed_def destroy_def store_defs Let_def)

section \<open>In-flight marks\<close>

text \<open>
  C2, as amended. In every state that a store reaches: every agent marked in flight has
  a job in the pool, and running the remaining statements of that job removes the mark,
  unless the pool has been stopped; and when \<open>enqueue\<close> acquires the mark of an agent while
  the pool is not stopped, it submits a job for the agent.
\<close>

theorem inflight_mark_has_job:
  assumes "newStore now size' ttl workers interval = Some s0" and "run evs s0 = Inr s"
  shows "(\<forall>k. k \<in> inflight s \<longrightarrow>
            p_stopped (pool s) \<or>
            (\<exists>n<length (p_jobs (pool s)).
               j_agent (p_jobs (pool s) ! n) = k \<and>
               (\<forall>r. \<exists>s'. run (replicate (remaining (j_pc (p_jobs (pool s) ! n))) (JobStep n r)) s
                            = Inr s' \<and> k \<notin> inflight s'))) \<and>
         (\<forall>k. k \<notin> inflight s \<and> \<not> p_stopped (pool s) \<longrightarrow>
            k \<in> inflight (enqueue k s) \<and>
            p_jobs (pool (enqueue k s)) = p_jobs (pool s) @ [\<lparr>j_agent = k, j_pc = AtUpdate\<rparr>])"
proof (intro conjI allI impI)
  have inv: "jobs_inv s"
    using assms(2) jobs_inv_newStore [OF assms(1)] by (rule jobs_inv_run)
  fix k
  assume k: "k \<in> inflight s"
  show "p_stopped (pool s) \<or>
            (\<exists>n<length (p_jobs (pool s)).
               j_agent (p_jobs (pool s) ! n) = k \<and>
               (\<forall>r. \<exists>s'. run (replicate (remaining (j_pc (p_jobs (pool s) ! n))) (JobStep n r)) s
                            = Inr s' \<and> k \<notin> inflight s'))"
  proof (cases "p_stopped (pool s)")
    case True
    then show ?thesis by simp
  next
    case False
    with inv k have "k \<in> set (agents s)" by (auto simp add: jobs_inv_def)
    then obtain n where n: "n < length (p_jobs (pool s))" "j_agent (p_jobs (pool s) ! n) = k"
      by (auto simp add: agents_def in_set_conv_nth)
    have "\<exists>s'. run (replicate (remaining (j_pc (p_jobs (pool s) ! n))) (JobStep n r)) s
            = Inr s' \<and> k \<notin> inflight s'" for r
      using run_remaining [OF n(1) refl, of r] n(2) by auto
    with n show ?thesis by blast
  qed
next
  fix k
  assume "k \<notin> inflight s \<and> \<not> p_stopped (pool s)"
  then show "k \<in> inflight (enqueue k s)"
    and "p_jobs (pool (enqueue k s)) = p_jobs (pool s) @ [\<lparr>j_agent = k, j_pc = AtUpdate\<rparr>]"
    by (simp_all add: enqueue_jobs)
qed

theorem inflight_mark_has_job_witness:
  "(\<exists>n<length (p_jobs (pool (sw1_queued 30))).
      j_agent (p_jobs (pool (sw1_queued 30)) ! n) = ''sw1'' \<and>
      (\<exists>s'. run (replicate (remaining (j_pc (p_jobs (pool (sw1_queued 30)) ! n)))
                   (JobStep n None)) (sw1_queued 30) = Inr s' \<and>
            ''sw1'' \<notin> inflight s')) \<and>
   ''sw2'' \<in> inflight (enqueue ''sw2'' (sw1_queued 30)) \<and>
   p_jobs (pool (enqueue ''sw2'' (sw1_queued 30))) =
     p_jobs (pool (sw1_queued 30)) @ [\<lparr>j_agent = ''sw2'', j_pc = AtUpdate\<rparr>]"
proof -
  have h: "''sw1'' \<in> inflight (sw1_queued 30)" "\<not> p_stopped (pool (sw1_queued 30))"
    "''sw2'' \<notin> inflight (sw1_queued 30)"
    by (simp_all add: sw1_queued_eq)
  from inflight_mark_has_job [OF newStore_the sw1_queued_run, of 30] h show ?thesis
    by blast
qed

text \<open>
  C2 as stated fails once the pool is stopped: after \<open>destroy\<close>, the lookup of an agent that
  is not cached calls \<open>enqueue\<close>, which marks the agent in flight and returns; no job is
  submitted and the mark stays.
\<close>

theorem inflight_mark_after_stop_counterexample:
  "run destroy (the (newStore 0 10 3600 2 30))
     = Inr (destroyed 30) \<and>
   ''sw1'' \<notin> inflight (destroyed 30) \<and>
   lookup ''sw1'' ''eth0'' (destroyed 30) = Inr (enqueue ''sw1'' (destroyed 30)) \<and>
   inflight (enqueue ''sw1'' (destroyed 30)) = {''sw1''} \<and>
   p_jobs (pool (enqueue ''sw1'' (destroyed 30))) = [] \<and>
   trace (enqueue ''sw1'' (destroyed 30)) = []"
  using destroyed_run [of 30]
  by (simp add: destroyed_eq lookup_def lru_Get_def enqueue_def del: run.simps)

section \<open>The order of a job's statements\<close>

lemma run_job_stages:
  assumes n: "n < length (p_jobs (pool s))"
    and pc: "j_pc (p_jobs (pool s) ! n) = AtUpdate"
    and k: "j_agent (p_jobs (pool s) ! n) = k"
  shows "\<exists>s3 s4 s5.
           run [JobStep n r, JobStep n r1, JobStep n r2] s = Inr s3 \<and>
           step (JobStep n r3) s3 = Inr s4 \<and>
           step (JobStep n r4) s4 = Inr s5 \<and>
           trace s3 = trace s @ [Resolved k r, Installed k r, Unqueued k] \<and>
           cache s3 = lru_Add (clock s) k r (cache s) \<and> clock s3 = clock s \<and>
           map_of (deferredUpdates s3) k = None \<and>
           inflight s3 = inflight s \<and>
           trace s4 = trace s3 @ [Notified InJob k r] \<and>
           inflight s4 = inflight s \<and>
           trace s5 = trace s4 @ [Released k] \<and>
           inflight s5 = inflight s - {k}"
proof -
  let ?s1 = "job_step n r s"
  let ?s2 = "job_step n r1 ?s1"
  let ?s3 = "job_step n r2 ?s2"
  let ?s4 = "job_step n r3 ?s3"
  let ?s5 = "job_step n r4 ?s4"
  have s1: "n < length (p_jobs (pool ?s1))" "j_pc (p_jobs (pool ?s1) ! n) = AtCacheAdd r"
    "j_agent (p_jobs (pool ?s1) ! n) = k"
    using n pc k by (simp_all add: job_step_AtUpdate)
  have f1: "trace ?s1 = trace s @ [Resolved k r]" "cache ?s1 = cache s" "clock ?s1 = clock s"
    "inflight ?s1 = inflight s"
    using n pc k by (simp_all add: job_step_AtUpdate)
  have s2: "n < length (p_jobs (pool ?s2))" "j_pc (p_jobs (pool ?s2) ! n) = AtRemoveBacklog r"
    "j_agent (p_jobs (pool ?s2) ! n) = k"
    using s1 by (simp_all add: job_step_AtCacheAdd)
  have f2: "trace ?s2 = trace ?s1 @ [Installed k r]"
    "cache ?s2 = lru_Add (clock ?s1) k r (cache ?s1)" "clock ?s2 = clock ?s1"
    "inflight ?s2 = inflight ?s1"
    using s1 by (simp_all add: job_step_AtCacheAdd)
  have s3: "n < length (p_jobs (pool ?s3))" "j_pc (p_jobs (pool ?s3) ! n) = AtNotify r"
    "j_agent (p_jobs (pool ?s3) ! n) = k"
    using s2 by (simp_all add: job_step_AtRemoveBacklog)
  have f3: "trace ?s3 = trace ?s2 @ [Unqueued k]" "cache ?s3 = cache ?s2" "clock ?s3 = clock ?s2"
    "deferredUpdates ?s3 = AList.delete k (deferredUpdates ?s2)" "inflight ?s3 = inflight ?s2"
    using s2 by (simp_all add: job_step_AtRemoveBacklog)
  have s4: "n < length (p_jobs (pool ?s4))" "j_pc (p_jobs (pool ?s4) ! n) = AtInflightDelete"
    "j_agent (p_jobs (pool ?s4) ! n) = k"
    using s3 by (simp_all add: job_step_AtNotify)
  have f4: "trace ?s4 = trace ?s3 @ [Notified InJob k r]" "inflight ?s4 = inflight ?s3"
    using s3 by (simp_all add: job_step_AtNotify)
  have f5: "trace ?s5 = trace ?s4 @ [Released k]" "inflight ?s5 = inflight ?s4 - {k}"
    using s4 by (simp_all add: job_step_AtInflightDelete)
  have r3: "run [JobStep n r, JobStep n r1, JobStep n r2] s = Inr ?s3"
    using n s1(1) s2(1) by simp
  have r4: "step (JobStep n r3) ?s3 = Inr ?s4" using s3(1) by simp
  have r5: "step (JobStep n r4) ?s4 = Inr ?s5" using s4(1) by simp
  have b: "map_of (deferredUpdates ?s3) k = None"
    by (simp add: f3 AList.delete_conv')
  show ?thesis
    using r3 r4 r5 b f1 f2 f3 f4 f5
    by (intro exI [of _ ?s3] exI [of _ ?s4] exI [of _ ?s5]) (simp del: run.simps step.simps)
qed

text \<open>
  C4. In every state that a store reaches, and whatever else happened in between, the
  calls of the jobs of any one agent appear in the trace in the order of the closure:
  after its submission a job calls the resolver, installs the returned entry into the
  cache, removes the agent from the backlog, calls the notifier with that entry and
  releases the in-flight mark, and only then can the next job of that agent be
  submitted (\<open>track\<close> accepts the trace and ends at the statement where the agent's job
  stands). Run without interruption, a job that has not started makes exactly these
  calls: when it calls the notifier, the cache holds the new entry and the backlog has
  no entry for the agent, and the agent is still marked in flight; the mark goes last.
\<close>

theorem job_statements_in_order:
  assumes "newStore now size' ttl workers interval = Some s0" and "run evs s0 = Inr s"
  shows "(\<forall>k. track k (trace s) = Some (job_of k s)) \<and>
    (\<forall>n r r1 r2 r3 r4.
       n < length (p_jobs (pool s)) \<and> j_pc (p_jobs (pool s) ! n) = AtUpdate \<longrightarrow>
       (\<exists>s3 s4 s5.
          run [JobStep n r, JobStep n r1, JobStep n r2] s = Inr s3 \<and>
          step (JobStep n r3) s3 = Inr s4 \<and>
          step (JobStep n r4) s4 = Inr s5 \<and>
          trace s3 = trace s @ [Resolved (j_agent (p_jobs (pool s) ! n)) r,
                                Installed (j_agent (p_jobs (pool s) ! n)) r,
                                Unqueued (j_agent (p_jobs (pool s) ! n))] \<and>
          fst (lru_Get (clock s3) (j_agent (p_jobs (pool s) ! n)) (cache s3)) = Some r \<and>
          map_of (deferredUpdates s3) (j_agent (p_jobs (pool s) ! n)) = None \<and>
          j_agent (p_jobs (pool s) ! n) \<in> inflight s3 \<and>
          trace s4 = trace s3 @ [Notified InJob (j_agent (p_jobs (pool s) ! n)) r] \<and>
          j_agent (p_jobs (pool s) ! n) \<in> inflight s4 \<and>
          trace s5 = trace s4 @ [Released (j_agent (p_jobs (pool s) ! n))] \<and>
          j_agent (p_jobs (pool s) ! n) \<notin> inflight s5))"
proof (intro conjI allI impI)
  have inv0: "jobs_inv s0" using assms(1) by (rule jobs_inv_newStore)
  have inv: "jobs_inv s" using assms(2) inv0 by (rule jobs_inv_run)
  fix k
  have "track k (trace s0) = Some (job_of k s0)"
    using newStore_fresh [OF assms(1)] by (simp add: track_def job_of_def)
  with assms(2) inv0 show "track k (trace s) = Some (job_of k s)"
    by (rule track_run)
next
  fix n r r1 r2 r3 r4
  let ?k = "j_agent (p_jobs (pool s) ! n)"
  assume a: "n < length (p_jobs (pool s)) \<and> j_pc (p_jobs (pool s) ! n) = AtUpdate"
  have inv: "jobs_inv s"
    using assms(2) jobs_inv_newStore [OF assms(1)] by (rule jobs_inv_run)
  have "?k \<in> set (agents s)" using a by (simp add: agents_def)
  with inv have m: "?k \<in> inflight s" by (auto simp add: jobs_inv_def)
  have "0 < lru_ttl (cache s)"
    using newStore_lru_ttl [OF assms(1)] run_lru_ttl [OF assms(2)] by simp
  then have g: "fst (lru_Get (clock s) ?k (lru_Add (clock s) ?k r (cache s))) = Some r"
    by (simp add: lru_Add_Get)
  from a have n: "n < length (p_jobs (pool s))" and pc: "j_pc (p_jobs (pool s) ! n) = AtUpdate"
    by simp_all
  from run_job_stages [OF n pc refl, of r r1 r2 r3 r4] obtain s3 s4 s5 where st:
    "run [JobStep n r, JobStep n r1, JobStep n r2] s = Inr s3"
    "step (JobStep n r3) s3 = Inr s4"
    "step (JobStep n r4) s4 = Inr s5"
    "trace s3 = trace s @ [Resolved ?k r, Installed ?k r, Unqueued ?k]"
    "cache s3 = lru_Add (clock s) ?k r (cache s)" "clock s3 = clock s"
    "map_of (deferredUpdates s3) ?k = None"
    "inflight s3 = inflight s"
    "trace s4 = trace s3 @ [Notified InJob ?k r]"
    "inflight s4 = inflight s"
    "trace s5 = trace s4 @ [Released ?k]"
    "inflight s5 = inflight s - {?k}"
    by blast
  show "\<exists>s3 s4 s5.
          run [JobStep n r, JobStep n r1, JobStep n r2] s = Inr s3 \<and>
          step (JobStep n r3) s3 = Inr s4 \<and>
          step (JobStep n r4) s4 = Inr s5 \<and>
          trace s3 = trace s @ [Resolved ?k r, Installed ?k r, Unqueued ?k] \<and>
          fst (lru_Get (clock s3) ?k (cache s3)) = Some r \<and>
          map_of (deferredUpdates s3) ?k = None \<and>
          ?k \<in> inflight s3 \<and>
          trace s4 = trace s3 @ [Notified InJob ?k r] \<and>
          ?k \<in> inflight s4 \<and>
          trace s5 = trace s4 @ [Released ?k] \<and>
          ?k \<notin> inflight s5"
    using st g m
    by (intro exI [of _ s3] exI [of _ s4] exI [of _ s5]) (simp del: run.simps step.simps)
qed

theorem job_statements_in_order_witness:
  "track ''sw1'' (trace (sw1_queued 30)) = Some (Some AtUpdate) \<and>
   (\<exists>s3 s4 s5.
      run [JobStep 0 (Some sw1_entry), JobStep 0 None, JobStep 0 None] (sw1_queued 30)
        = Inr s3 \<and>
      step (JobStep 0 None) s3 = Inr s4 \<and>
      step (JobStep 0 None) s4 = Inr s5 \<and>
      trace s5 = [Submitted ''sw1'', Resolved ''sw1'' (Some sw1_entry),
                  Installed ''sw1'' (Some sw1_entry), Unqueued ''sw1'',
                  Notified InJob ''sw1'' (Some sw1_entry), Released ''sw1''])"
proof -
  have j: "0 < length (p_jobs (pool (sw1_queued 30)))"
    "j_pc (p_jobs (pool (sw1_queued 30)) ! 0) = AtUpdate"
    "j_agent (p_jobs (pool (sw1_queued 30)) ! 0) = ''sw1''"
    "job_of ''sw1'' (sw1_queued 30) = Some AtUpdate"
    "trace (sw1_queued 30) = [Submitted ''sw1'']"
    by (simp_all add: sw1_queued_eq job_of_def)
  note t = job_statements_in_order [OF newStore_the sw1_queued_run, of 30]
  from t have "track ''sw1'' (trace (sw1_queued 30)) = Some (job_of ''sw1'' (sw1_queued 30))"
    by blast
  moreover from t j(1,2) obtain s3 s4 s5 where
    "run [JobStep 0 (Some sw1_entry), JobStep 0 None, JobStep 0 None] (sw1_queued 30) = Inr s3"
    "step (JobStep 0 None) s3 = Inr s4"
    "step (JobStep 0 None) s4 = Inr s5"
    "trace s3 = trace (sw1_queued 30) @
       [Resolved (j_agent (p_jobs (pool (sw1_queued 30)) ! 0)) (Some sw1_entry),
        Installed (j_agent (p_jobs (pool (sw1_queued 30)) ! 0)) (Some sw1_entry),
        Unqueued (j_agent (p_jobs (pool (sw1_queued 30)) ! 0))]"
    "trace s4 = trace s3 @
       [Notified InJob (j_agent (p_jobs (pool (sw1_queued 30)) ! 0)) (Some sw1_entry)]"
    "trace s5 = trace s4 @ [Released (j_agent (p_jobs (pool (sw1_queued 30)) ! 0))]"
    by blast
  ultimately show ?thesis
    using j(3,4,5)
    by (intro conjI exI [of _ s3] exI [of _ s4] exI [of _ s5])
       (simp_all del: run.simps step.simps)
qed

section \<open>Shutdown\<close>

lemma addBacklog_stopped:
  "stopped s \<Longrightarrow> addBacklog a t s = s"
  by (simp add: addBacklog_def)

lemma removeBacklog_stopped:
  "stopped s \<Longrightarrow> removeBacklog a s = s\<lparr>deferredUpdates := AList.delete a (deferredUpdates s)\<rparr>"
  by (simp add: removeBacklog_def Let_def)

lemma job_step_stopped:
  assumes "stopped s" and "deferredUpdates s = []"
  shows "deferredUpdates (job_step n r s) = []"
    and "deferredUpdatesTimer (job_step n r s) = deferredUpdatesTimer s"
  using assms
  by (simp_all add: job_step_def Let_def removeBacklog_stopped split: pc.splits)

text \<open>
  Once \<open>stopped\<close> is set it stays set, the backlog stays empty and no timer is pending;
  and the pool is stopped only after \<open>stopped\<close> was set.
\<close>

lemma stopped_step:
  assumes "step ev s = Inr s'"
    and "p_stopped (pool s) \<longrightarrow> stopped s"
    and "stopped s \<longrightarrow> deferredUpdates s = [] \<and> deferredUpdatesTimer s = None"
  shows "(p_stopped (pool s') \<longrightarrow> stopped s') \<and>
         (stopped s' \<longrightarrow> deferredUpdates s' = [] \<and> deferredUpdatesTimer s' = None) \<and>
         (stopped s \<longrightarrow> stopped s') \<and> (p_stopped (pool s) \<longrightarrow> p_stopped (pool s'))"
proof (cases ev)
  case (Lookup agent index)
  with assms have "lookup agent index s = Inr s'" by simp
  then show ?thesis
  proof (cases rule: lookup_cases)
    case (enq c)
    with assms(2,3) show ?thesis by simp
  next
    case (later c e)
    show ?thesis
    proof (cases "stopped s")
      case True
      with assms(2,3) later show ?thesis by (simp add: addBacklog_stopped)
    next
      case False
      with assms(2,3) later show ?thesis by simp
    qed
  next
    case (hit c e)
    with assms(2,3) show ?thesis by simp
  qed
next
  case (JobStep n r)
  with assms(1) have s': "s' = job_step n r s" by (auto split: if_splits)
  show ?thesis
    using assms(2,3) job_step_stopped [of s n r] by (auto simp add: s')
next
  case TimerFire
  with assms show ?thesis
    by (auto split: option.splits if_splits)
next
  case (Tick d)
  with assms show ?thesis by (auto split: if_splits)
next
  case DestroyLock
  with assms show ?thesis by (auto simp add: destroy_locked_def)
next
  case DestroyStop
  with assms show ?thesis by (auto simp add: pool_stop_def split: if_splits)
next
  case DestroyWait
  with assms show ?thesis by (auto split: if_splits)
next
  case Purge
  with assms show ?thesis by (auto simp add: purge_def)
next
  case (Shuffle al)
  with assms show ?thesis by (auto split: if_splits)
qed

lemma stopped_run:
  assumes "run evs s = Inr s'"
    and "p_stopped (pool s) \<longrightarrow> stopped s"
    and "stopped s \<longrightarrow> deferredUpdates s = [] \<and> deferredUpdatesTimer s = None"
  shows "(p_stopped (pool s') \<longrightarrow> stopped s') \<and>
         (stopped s' \<longrightarrow> deferredUpdates s' = [] \<and> deferredUpdatesTimer s' = None) \<and>
         (stopped s \<longrightarrow> stopped s') \<and> (p_stopped (pool s) \<longrightarrow> p_stopped (pool s'))"
  using assms
proof (induction evs arbitrary: s)
  case Nil
  then show ?case by simp
next
  case (Cons ev evs)
  from Cons.prems(1) obtain s1 where s1: "step ev s = Inr s1" and r: "run evs s1 = Inr s'"
    by (auto split: sum.splits)
  note a = stopped_step [OF s1 Cons.prems(2,3)]
  from a Cons.IH [OF r] show ?case by blast
qed

text \<open>On a stopped pool without jobs no step brings a job or a submission.\<close>

lemma drained_step:
  assumes "step ev s = Inr s'" and "p_stopped (pool s)" and "p_jobs (pool s) = []"
  shows "p_stopped (pool s') \<and> p_jobs (pool s') = [] \<and>
         filter is_Submitted (trace s') = filter is_Submitted (trace s)"
proof (cases ev)
  case (Lookup agent index)
  with assms have "lookup agent index s = Inr s'" by simp
  then show ?thesis
    by (cases rule: lookup_cases) (use assms in \<open>simp_all add: enqueue_jobs enqueue_trace\<close>)
next
  case TimerFire
  with assms show ?thesis
    by (auto split: option.splits if_splits simp add: enqueue_jobs enqueue_trace)
qed (use assms in \<open>auto split: if_splits
       simp add: destroy_locked_def pool_stop_def purge_def\<close>)

lemma drained_run:
  "run evs s = Inr s' \<Longrightarrow> p_stopped (pool s) \<Longrightarrow> p_jobs (pool s) = [] \<Longrightarrow>
     p_stopped (pool s') \<and> p_jobs (pool s') = [] \<and>
     filter is_Submitted (trace s') = filter is_Submitted (trace s)"
proof (induction evs arbitrary: s)
  case Nil
  then show ?case by simp
next
  case (Cons ev evs)
  from Cons.prems(1) obtain s1 where s1: "step ev s = Inr s1" and r: "run evs s1 = Inr s'"
    by (auto split: sum.splits)
  note a = drained_step [OF s1 Cons.prems(2,3)]
  with Cons.IH [OF r] show ?case by simp
qed

lemma run_append:
  "run (xs @ ys) s = (case run xs s of Inl x \<Rightarrow> Inl x | Inr s' \<Rightarrow> run ys s')"
  by (induction xs arbitrary: s) (auto split: sum.splits)

lemma run_drain:
  "p_jobs (pool s) = js \<Longrightarrow>
     \<exists>s'. run (drain js) s = Inr s' \<and> p_jobs (pool s') = [] \<and>
          p_stopped (pool s') = p_stopped (pool s)"
proof (induction js arbitrary: s)
  case Nil
  then show ?case by (simp add: drain_def)
next
  case (Cons j js)
  then have n: "0 < length (p_jobs (pool s))" and j: "p_jobs (pool s) ! 0 = j"
    by simp_all
  from run_remaining [OF n refl, of None] obtain s1 where s1:
    "run (replicate (remaining (j_pc j)) (JobStep 0 None)) s = Inr s1"
    "p_jobs (pool s1) = js" "p_stopped (pool s1) = p_stopped (pool s)"
    using Cons.prems by (auto simp add: j)
  from Cons.IH [OF s1(2)] obtain s' where
    "run (drain js) s1 = Inr s'" "p_jobs (pool s') = []"
    "p_stopped (pool s') = p_stopped (pool s1)"
    by blast
  with s1 show ?case
    by (auto simp add: drain_def run_append)
qed

text \<open>
  C8. In every state \<open>s\<close> that a store reaches: once \<open>destroy\<close> has returned (the event
  \<open>DestroyWait\<close>), in every later state the backlog is empty, no timer is pending, the pool
  holds no job and nothing has been submitted since; \<open>addBacklog\<close> on a stopped store
  changes nothing, and the locked section of \<open>destroy\<close> sets \<open>stopped\<close>, empties the map and
  drops the timer. While \<open>destroy\<close> waits, it cannot return as long as the pool holds a
  job, every job can run its remaining statements, and then \<open>destroy\<close> returns.
\<close>

theorem destroy_is_final:
  assumes "newStore now size' ttl workers interval = Some s0" and "run evs s0 = Inr s"
  shows "(\<forall>s1 evs' s2.
            step DestroyWait s = Inr s1 \<and> run evs' s1 = Inr s2 \<longrightarrow>
              stopped s2 \<and> deferredUpdates s2 = [] \<and> deferredUpdatesTimer s2 = None \<and>
              p_stopped (pool s2) \<and> p_jobs (pool s2) = [] \<and>
              filter is_Submitted (trace s2) = filter is_Submitted (trace s)) \<and>
         (\<forall>a t. stopped s \<longrightarrow> addBacklog a t s = s) \<and>
         stopped (destroy_locked s) \<and> deferredUpdates (destroy_locked s) = [] \<and>
         deferredUpdatesTimer (destroy_locked s) = None \<and>
         (p_jobs (pool s) \<noteq> [] \<longrightarrow> step DestroyWait s = Inl NotSchedulable) \<and>
         (p_stopped (pool s) \<longrightarrow>
            (\<exists>s'. run (drain (p_jobs (pool s))) s = Inr s' \<and> step DestroyWait s' = Inr s'))"
proof (intro conjI allI impI)
  have init: "p_stopped (pool s0) \<longrightarrow> stopped s0"
    "stopped s0 \<longrightarrow> deferredUpdates s0 = [] \<and> deferredUpdatesTimer s0 = None"
    using newStore_fresh [OF assms(1)] by simp_all
  note inv = stopped_run [OF assms(2) init]
  {
    fix s1 evs' s2
    assume a: "step DestroyWait s = Inr s1 \<and> run evs' s1 = Inr s2"
    then have s1: "s1 = s" "p_stopped (pool s)" "p_jobs (pool s) = []"
      by (auto split: if_splits)
    with a have r: "run evs' s = Inr s2" by simp
    have i1: "p_stopped (pool s) \<longrightarrow> stopped s"
      "stopped s \<longrightarrow> deferredUpdates s = [] \<and> deferredUpdatesTimer s = None"
      using inv by simp_all
    note after = stopped_run [OF r i1] drained_run [OF r s1(2,3)]
    from after s1 inv show "stopped s2" by blast
    from after s1 inv show "deferredUpdates s2 = []" by blast
    from after s1 inv show "deferredUpdatesTimer s2 = None" by blast
    from after show "p_stopped (pool s2)" by blast
    from after show "p_jobs (pool s2) = []" by blast
    from after show "filter is_Submitted (trace s2) = filter is_Submitted (trace s)" by blast
  }
  show "addBacklog a t s = s" if "stopped s" for a t
    using that by (rule addBacklog_stopped)
  show "stopped (destroy_locked s)" "deferredUpdates (destroy_locked s) = []"
    "deferredUpdatesTimer (destroy_locked s) = None"
    by (simp_all add: destroy_locked_def)
  show "step DestroyWait s = Inl NotSchedulable" if "p_jobs (pool s) \<noteq> []"
    using that by simp
  show "\<exists>s'. run (drain (p_jobs (pool s))) s = Inr s' \<and> step DestroyWait s' = Inr s'"
    if "p_stopped (pool s)"
  proof -
    from run_drain [OF refl, of s] obtain s' where
      "run (drain (p_jobs (pool s))) s = Inr s'" "p_jobs (pool s') = []"
      "p_stopped (pool s') = p_stopped (pool s)"
      by blast
    with that show ?thesis by auto
  qed
qed

lemma sw3_stopping_eq:
  "sw3_stopping =
     \<lparr> cache = \<lparr> lru_size = 10, lru_ttl = 3600, lru_items = [] \<rparr>,
       pool = \<lparr> p_maxWorkers = 2, p_minWorkers = 2, p_stopped = True,
                p_jobs = [\<lparr>j_agent = ''sw3'', j_pc = AtCacheAdd (Some sw1_entry)\<rparr>] \<rparr>,
       minUpdateInterval = 30,
       inflight = {''sw3''},
       deferredUpdates = [],
       deferredUpdatesTimer = None,
       stopped = True,
       clock = 0,
       trace = [Submitted ''sw3'', Resolved ''sw3'' (Some sw1_entry)] \<rparr>"
  by (simp add: sw3_stopping_def store_defs Let_def)

lemma sw3_stopping_run:
  "run [Lookup ''sw3'' ''eth0'', JobStep 0 (Some sw1_entry), DestroyLock, DestroyStop]
     (the (newStore 0 10 3600 2 30)) = Inr sw3_stopping"
  by (simp add: sw3_stopping_def store_defs Let_def)

theorem destroy_is_final_witness:
  "run [Lookup ''sw1'' ''eth0''] (destroyed 30) = Inr (enqueue ''sw1'' (destroyed 30)) \<and>
   deferredUpdates (enqueue ''sw1'' (destroyed 30)) = [] \<and>
   p_jobs (pool (enqueue ''sw1'' (destroyed 30))) = [] \<and>
   filter is_Submitted (trace (enqueue ''sw1'' (destroyed 30))) =
     filter is_Submitted (trace (destroyed 30)) \<and>
   step DestroyWait sw3_stopping = Inl NotSchedulable \<and>
   (\<exists>s'. run (drain (p_jobs (pool sw3_stopping))) sw3_stopping = Inr s' \<and>
         step DestroyWait s' = Inr s')"
proof -
  have w: "step DestroyWait (destroyed 30) = Inr (destroyed 30)"
    by (simp add: destroyed_eq)
  have l: "run [Lookup ''sw1'' ''eth0''] (destroyed 30) = Inr (enqueue ''sw1'' (destroyed 30))"
    by (simp add: destroyed_eq lookup_def lru_Get_def)
  have j: "p_jobs (pool sw3_stopping) \<noteq> []" "p_stopped (pool sw3_stopping)"
    by (simp_all add: sw3_stopping_eq)
  note a = destroy_is_final [OF newStore_the destroyed_run, of 30]
  note b = destroy_is_final [OF newStore_the sw3_stopping_run]
  from a w l have
    "deferredUpdates (enqueue ''sw1'' (destroyed 30)) = [] \<and>
     p_jobs (pool (enqueue ''sw1'' (destroyed 30))) = [] \<and>
     filter is_Submitted (trace (enqueue ''sw1'' (destroyed 30))) =
       filter is_Submitted (trace (destroyed 30))"
    by blast
  moreover from b j have
    "step DestroyWait sw3_stopping = Inl NotSchedulable \<and>
     (\<exists>s'. run (drain (p_jobs (pool sw3_stopping))) sw3_stopping = Inr s' \<and>
           step DestroyWait s' = Inr s')"
    by blast
  ultimately show ?thesis using l by blast
qed

section \<open>The timer\<close>

lemma foldl_pick_min:
  assumes "fst acc \<noteq> ''''" and "'''' \<notin> fst ` set al"
  shows "foldl pick acc al \<in> insert acc (set al) \<and>
         snd (foldl pick acc al) \<le> snd acc \<and>
         (\<forall>kt\<in>set al. snd (foldl pick acc al) \<le> snd kt)"
  using assms
proof (induction al arbitrary: acc)
  case Nil
  then show ?case by simp
next
  case (Cons x al)
  let ?acc = "pick acc x"
  have p: "?acc = (if snd x < snd acc then x else acc)"
    using Cons.prems(1) by (simp add: pick_def)
  have "fst ?acc \<noteq> ''''"
    using Cons.prems by (auto simp add: p)
  moreover have "'''' \<notin> fst ` set al" using Cons.prems(2) by simp
  ultimately have "foldl pick ?acc al \<in> insert ?acc (set al) \<and>
         snd (foldl pick ?acc al) \<le> snd ?acc \<and>
         (\<forall>kt\<in>set al. snd (foldl pick ?acc al) \<le> snd kt)"
    by (rule Cons.IH)
  then show ?case by (auto simp add: p split: if_splits)
qed

text \<open>
  When no agent of the backlog has the empty name, \<open>refreshTimer\<close> on a running store with
  a backlog arms the timer for an entry of the backlog with the least deadline.
\<close>

lemma refreshTimer_minimum:
  assumes "\<not> stopped s" and "deferredUpdates s \<noteq> []"
    and "'''' \<notin> fst ` set (deferredUpdates s)"
  shows "\<exists>a e. deferredUpdatesTimer (refreshTimer s) =
                  Some (time_AfterFunc (clock s) (time_Until (clock s) e) a) \<and>
               (a, e) \<in> set (deferredUpdates s) \<and>
               (\<forall>kt\<in>set (deferredUpdates s). e \<le> snd kt)"
proof -
  from assms(2) obtain x al where al: "deferredUpdates s = x # al"
    by (cases "deferredUpdates s") auto
  have x: "fst x \<noteq> ''''" and rest: "'''' \<notin> fst ` set al"
    using assms(3) al by auto
  have f: "foldl pick ('''', zeroTime) (deferredUpdates s) = foldl pick x al"
    by (simp add: al pick_def)
  note m = foldl_pick_min [OF x rest]
  obtain a e where ae: "foldl pick x al = (a, e)" by (cases "foldl pick x al")
  with m have "(a, e) \<in> set (deferredUpdates s)" "\<forall>kt\<in>set (deferredUpdates s). e \<le> snd kt"
    by (auto simp add: al)
  moreover have "deferredUpdatesTimer (refreshTimer s) =
                  Some (time_AfterFunc (clock s) (time_Until (clock s) e) a)"
    using assms(1,2) by (simp add: refreshTimer_def Let_def f ae)
  ultimately show ?thesis by blast
qed

lemma empty_agent_backlog_eq:
  "deferredUpdates empty_agent_backlog = [('''', 30), (''sw1'', 35)]"
  "deferredUpdatesTimer empty_agent_backlog =
     Some \<lparr>t_due = 35, t_agent = ''sw1'', t_active = True\<rparr>"
  "clock empty_agent_backlog = 6"
  "stopped empty_agent_backlog = False"
  by (simp_all add: empty_agent_backlog_def empty_agent_events_def resolve_def store_defs
      sw1_entry_def Let_def)

text \<open>
  C5 does not hold of the code when an agent has the empty name. \<open>refreshTimer\<close> uses the
  empty string in \<open>agent\<close> for "nothing chosen yet" (line 74), so after it has visited the
  entry of the empty agent it takes the next entry whatever its deadline. Here the
  backlog holds the deadline 30 for the empty agent and 35 for \<open>sw1\<close>, visited in this
  order, and the timer is armed for 35 and for \<open>sw1\<close>, not for the least deadline 30: at
  instant 30 it cannot fire.
\<close>

theorem timer_not_minimal_for_empty_agent:
  "\<not> isl (run empty_agent_events (the (newStore 0 10 3600 2 30))) \<and>
   deferredUpdates empty_agent_backlog = [('''', 30), (''sw1'', 35)] \<and>
   deferredUpdatesTimer empty_agent_backlog =
     Some \<lparr>t_due = 35, t_agent = ''sw1'', t_active = True\<rparr> \<and>
   deferredUpdatesTimer (refreshTimer empty_agent_backlog) =
     Some \<lparr>t_due = 35, t_agent = ''sw1'', t_active = True\<rparr> \<and>
   step TimerFire (empty_agent_backlog\<lparr>clock := 30\<rparr>) = Inl NotSchedulable"
  by (simp add: empty_agent_backlog_eq refreshTimer_def pick_def time_AfterFunc_def
      time_Until_def time_Sub_def maxDuration_def minDuration_def timer_Stop_def Let_def)
     (simp add: empty_agent_events_def resolve_def store_defs sw1_entry_def Let_def)

end
